theory Spec2Isabelle
  imports Complex_Main "HOL-Library.Log_Nat" "HOL-Library.Word" "HOL-Library.Multiset"
begin

section \<open>Data model of \<^verbatim>\<open>thesis_toolkit.pyx\<close>\<close>

text \<open>
  Tokens are Python strings, contexts (grams) are tuples of tokens. The markovify model
  is the pair of its \<^verbatim>\<open>state_size\<close> and of the dictionary \<^verbatim>\<open>chain.model\<close>, which maps
  a gram to a dictionary from next tokens to frequencies. Both dictionaries are kept as
  association lists in insertion order, since the code depends on the iteration order
  of their keys; a lookup is \<open>map_of\<close>.

  Bit streams are strings over the characters 0 and 1. All counters of the source that
  are C ints (\<^verbatim>\<open>bitstream_length\<close>, \<^verbatim>\<open>index\<close>, \<^verbatim>\<open>endkey\<close>, \<^verbatim>\<open>end_key\<close>) are modelled by
  unbounded numbers: the model describes sessions whose lengths stay below \<open>2^31\<close>.
  Characters are the 8-bit characters of HOL; \<^verbatim>\<open>chr(97 + c)\<close> stays in that range because
  \<open>c\<close> is at most the code length of a Python list, which is at most 62.
\<close>

type_synonym token = string
type_synonym gram = "token list"
type_synonym matrix = "(token \<times> int) list"

record model =
  state_size :: nat
  chain :: "(gram \<times> matrix) list"

datatype error = KeyError | ValueError | IndexError | ZeroDivisionError
  | TypeError | AttributeError

text \<open>What \<^verbatim>\<open>step()\<close> returns: the literal 1, \<^verbatim>\<open>None\<close>, or the quotient of two integers
  (kept as the pair of its operands).\<close>

datatype retval = One | NoneVal | Frac int int

definition BEGIN :: token where
  "BEGIN = ''___BEGIN__''"

definition END :: token where
  "END = ''___END__''"

subsection \<open>Strings and numbers\<close>

text \<open>\<^verbatim>\<open>ceil(log2(n))\<close> for \<open>n \<ge> 1\<close>; the caller raises for \<open>n = 0\<close>. The source computes
  the logarithm in floating point; the model takes the exact ceiling. The correction that
  follows it in the source (\<open>bit_length_of\<close> below) gives the same result for every
  ceiling that is the floor of the exact logarithm or one more, so it absorbs the rounding
  of the logarithm.\<close>

fun ceil_log2 :: "nat \<Rightarrow> nat" where
  "ceil_log2 n = (if n \<le> 1 then 0 else Suc (ceil_log2 ((n + 1) div 2)))"

declare ceil_log2.simps [simp del]

text \<open>The code length of a list of \<open>n\<close> items, lines 174 to 176:
  \<^verbatim>\<open>bit_length = ceil(log2(n)); if n < 2 ** bit_length: bit_length -= 1\<close>.\<close>

definition bit_length_of :: "nat \<Rightarrow> nat" where
  "bit_length_of n = (let b = ceil_log2 n in if n < 2 ^ b then b - 1 else b)"

text \<open>The decoder's variant, lines 285 to 288, with the extra assignment for a list of
  one item inside the conditional.\<close>

definition dec_bit_length_of :: "nat \<Rightarrow> nat" where
  "dec_bit_length_of n =
     (let b = ceil_log2 n in
      if n < 2 ^ b then (let b' = b - 1 in if n = 1 then 0 else b') else b)"

definition is_bit :: "char \<Rightarrow> bool" where
  "is_bit c = (c = CHR ''0'' \<or> c = CHR ''1'')"

definition bit_val :: "char \<Rightarrow> nat" where
  "bit_val c = (if c = CHR ''1'' then 1 else 0)"

text \<open>\<^verbatim>\<open>int(s, 2)\<close> on a string of bits; the empty string raises ValueError. (Python also
  accepts a sign, a \<^verbatim>\<open>0b\<close> prefix, underscores and blanks, which a bit stream never has;
  the model raises on them.)\<close>

definition int_base2 :: "string \<Rightarrow> error + nat" where
  "int_base2 s =
     (if s = [] \<or> \<not> list_all is_bit s then Inl ValueError
      else Inr (foldl (\<lambda>a c. 2 * a + bit_val c) 0 s))"

text \<open>\<^verbatim>\<open>bin(n)[2:]\<close>.\<close>

fun bin_digits :: "nat \<Rightarrow> string" where
  "bin_digits n =
     (if n < 2 then [if n = 1 then CHR ''1'' else CHR ''0'']
      else bin_digits (n div 2) @ [if n mod 2 = 1 then CHR ''1'' else CHR ''0''])"

declare bin_digits.simps [simp del]

text \<open>\<^verbatim>\<open>s.zfill(w)\<close> for a string of digits: a width below the length pads nothing.\<close>

definition zfill :: "string \<Rightarrow> int \<Rightarrow> string" where
  "zfill s w = replicate (nat (w - int (length s))) (CHR ''0'') @ s"

text \<open>\<^verbatim>\<open>" ".join(tokens)\<close> and \<^verbatim>\<open>text.split(" ")\<close>.\<close>

fun join_sp :: "token list \<Rightarrow> string" where
  "join_sp [] = []"
| "join_sp [t] = t"
| "join_sp (t # u # ts) = t @ CHR '' '' # join_sp (u # ts)"

fun split_sp :: "string \<Rightarrow> token list" where
  "split_sp [] = [[]]"
| "split_sp (c # cs) =
     (if c = CHR '' '' then [] # split_sp cs
      else (case split_sp cs of [] \<Rightarrow> [[c]] | t # ts \<Rightarrow> (c # t) # ts))"

text \<open>\<^verbatim>\<open>lst.index(x)\<close>: the first position of \<open>x\<close>, ValueError when absent.\<close>

fun index_of :: "'a list \<Rightarrow> 'a \<Rightarrow> error + nat" where
  "index_of [] x = Inl ValueError"
| "index_of (y # ys) x =
     (if y = x then Inr 0
      else (case index_of ys x of Inl e \<Rightarrow> Inl e | Inr i \<Rightarrow> Inr (Suc i)))"

text \<open>\<^verbatim>\<open>np.unpackbits\<close> followed by the join of \<^verbatim>\<open>file_to_bitstream\<close>: every byte gives its
  eight bits, most significant first.\<close>

definition byte_bits :: "nat \<Rightarrow> string" where
  "byte_bits b = zfill (bin_digits (b mod 256)) 8"

definition bitstream_of_bytes :: "nat list \<Rightarrow> string" where
  "bitstream_of_bytes bs = concat (map byte_bits bs)"

subsection \<open>Entry points and candidate lists (shared by both Enhanced classes)\<close>

text \<open>\<^verbatim>\<open>_get_entrypoints\<close>, lines 89 to 94 and 227 to 232. \<^verbatim>\<open>model.get(("___BEGIN__",))\<close> is
  \<^verbatim>\<open>None\<close> for a missing key, and \<^verbatim>\<open>None.keys()\<close> raises AttributeError. In the other
  branch a key that passes the filter holds \<open>state_size - 1\<close> START tokens, an integer
  that a count equals only when it is not negative; such a key of a model with
  \<open>state_size \<noteq> 1\<close> is not empty, so \<^verbatim>\<open>key[-1]\<close> is its last element.\<close>

definition get_entrypoints :: "model \<Rightarrow> error + token list" where
  "get_entrypoints m =
     (if state_size m = 1 then
        (case map_of (chain m) [BEGIN] of
           None \<Rightarrow> Inl AttributeError
         | Some tm \<Rightarrow> Inr (map fst tm))
      else
        Inr (tl (map last
          (filter (\<lambda>key. int (count_list key BEGIN) = int (state_size m) - 1)
             (map fst (chain m))))))"

text \<open>\<^verbatim>\<open>sorted(items, key=lambda kv: kv[1], reverse=True)\<close>: Python's sort is stable, also
  with \<^verbatim>\<open>reverse=True\<close>, so items of equal frequency keep their dictionary order.\<close>

definition sorted_desc :: "matrix \<Rightarrow> matrix" where
  "sorted_desc tm = sort_key (\<lambda>kv. - snd kv) tm"

text \<open>\<^verbatim>\<open>EnhancedEncoder._get_transitions\<close>, lines 185 to 190. The gram is \<^verbatim>\<open>None\<close> before
  the first entry point; \<^verbatim>\<open>None\<close> is no key of the model.\<close>

definition enc_get_transitions :: "model \<Rightarrow> gram option \<Rightarrow> error + token list" where
  "enc_get_transitions m g =
     (case g of
        None \<Rightarrow> Inl KeyError
      | Some gr \<Rightarrow>
          (case map_of (chain m) gr of
             None \<Rightarrow> Inl KeyError
           | Some trans_matrix \<Rightarrow> Inr (map fst (sorted_desc trans_matrix))))"

text \<open>\<^verbatim>\<open>EnhancedDecoder._get_transitions\<close>, lines 329 to 334.\<close>

definition dec_get_transitions :: "model \<Rightarrow> gram option \<Rightarrow> error + token list" where
  "dec_get_transitions m g =
     (case g of
        None \<Rightarrow> Inl KeyError
      | Some gr \<Rightarrow>
          (case map_of (chain m) gr of
             None \<Rightarrow> Inl KeyError
           | Some trans_matrix \<Rightarrow> Inr (map fst (sorted_desc trans_matrix))))"

text \<open>The context that follows an entry token, lines 126 and 271.\<close>

definition entry_gram :: "model \<Rightarrow> token \<Rightarrow> gram" where
  "entry_gram m t =
     (if state_size m = 1 then [t] else replicate (state_size m - 1) BEGIN @ [t])"

section \<open>EnhancedEncoder\<close>

record enc_state =
  ee_bitstream :: string
  ee_bitstream_length :: nat
  ee_entrypoints :: "token list"
  ee_current_gram :: "gram option"
  ee_output_tokens :: "token list"
  ee_exhausted :: bool
  ee_finished :: bool
  ee_end_key :: nat

text \<open>\<^verbatim>\<open>__init__\<close>, lines 77 to 87.\<close>

definition enc_init :: "model \<Rightarrow> string \<Rightarrow> error + enc_state" where
  "enc_init m bits =
     (case get_entrypoints m of
        Inl e \<Rightarrow> Inl e
      | Inr eps \<Rightarrow>
          Inr \<lparr>ee_bitstream = bits, ee_bitstream_length = length bits,
               ee_entrypoints = eps, ee_current_gram = None, ee_output_tokens = [],
               ee_exhausted = True, ee_finished = False, ee_end_key = 0\<rparr>)"

text \<open>\<^verbatim>\<open>_consume_from_list\<close>, lines 171 to 183: the result is the tuple
  (next token, removed bits, bit length, encoded index) and the rest of the bit stream.
  \<^verbatim>\<open>log2(0)\<close> raises ValueError.\<close>

definition consume_from_list ::
  "token list \<Rightarrow> string \<Rightarrow> error + (token \<times> string \<times> nat \<times> nat) \<times> string" where
  "consume_from_list lst bs =
     (let list_length = length lst in
      if list_length = 0 then Inl ValueError
      else
        let bit_length = bit_length_of list_length in
        (case (if bit_length = 0 then Inr 0 else int_base2 (take bit_length bs)) of
           Inl e \<Rightarrow> Inl e
         | Inr encoded_index \<Rightarrow>
             if encoded_index < length lst
             then Inr ((lst ! encoded_index, take bit_length bs, bit_length, encoded_index),
                       drop bit_length bs)
             else Inl IndexError))"

text \<open>\<^verbatim>\<open>_inject_end_key\<close>, lines 157 to 162. The argument \<open>rnd\<close> stands for the random
  source: \<^verbatim>\<open>random.randint(0, n - 1)\<close> is \<open>rnd mod n\<close>, so that every outcome is the
  value of some \<open>rnd\<close>. \<^verbatim>\<open>randint(0, -1)\<close> raises ValueError.\<close>

definition inject_end_key :: "nat \<Rightarrow> string \<Rightarrow> enc_state \<Rightarrow> error + enc_state" where
  "inject_end_key rnd removed s =
     (let s1 = s\<lparr>ee_end_key := length removed\<rparr> in
      if ee_output_tokens s1 = [] then Inl ValueError
      else
        let i = rnd mod length (ee_output_tokens s1) in
        Inr (s1\<lparr>ee_output_tokens :=
                   (ee_output_tokens s1)[i := ee_output_tokens s1 ! i
                      @ [char_of (ee_end_key s1 + 97)]],
                 ee_finished := True\<rparr>))"

text \<open>\<^verbatim>\<open>_choose_entrypoint\<close>, lines 122 to 134. Tokens are strings, so the branch for a
  tuple token is never taken.\<close>

definition enc_choose_entrypoint :: "model \<Rightarrow> nat \<Rightarrow> enc_state \<Rightarrow> error + enc_state" where
  "enc_choose_entrypoint m rnd s =
     (let s1 = s\<lparr>ee_exhausted := False\<rparr> in
      case consume_from_list (ee_entrypoints s1) (ee_bitstream s1) of
        Inl e \<Rightarrow> Inl e
      | Inr ((next_token, removed, bit_length, encoded_index), rest) \<Rightarrow>
          let s2 = s1\<lparr>ee_bitstream := rest,
                      ee_current_gram := Some (entry_gram m next_token),
                      ee_output_tokens := ee_output_tokens s1 @ [next_token]\<rparr>
          in if ee_bitstream s2 = [] then inject_end_key rnd removed s2 else Inr s2)"

text \<open>\<^verbatim>\<open>_choose_next_token\<close>, lines 136 to 155. \<^verbatim>\<open>list(None)\<close> raises TypeError (the
  lookup of the gram \<^verbatim>\<open>None\<close> has raised before).\<close>

definition enc_choose_next_token :: "model \<Rightarrow> nat \<Rightarrow> enc_state \<Rightarrow> error + enc_state" where
  "enc_choose_next_token m rnd s =
     (case enc_get_transitions m (ee_current_gram s) of
        Inl e \<Rightarrow> Inl e
      | Inr transitions \<Rightarrow>
          if END \<in> set transitions then Inr (s\<lparr>ee_exhausted := True\<rparr>)
          else
            (case consume_from_list transitions (ee_bitstream s) of
               Inl e \<Rightarrow> Inl e
             | Inr ((next_token, removed, bit_length, encoded_index), rest) \<Rightarrow>
                 (case ee_current_gram s of
                    None \<Rightarrow> Inl TypeError
                  | Some gr \<Rightarrow>
                      let s2 = s\<lparr>ee_bitstream := rest,
                                 ee_current_gram := Some (tl (gr @ [next_token])),
                                 ee_output_tokens := ee_output_tokens s @ [next_token]\<rparr>
                      in if ee_bitstream s2 = [] then inject_end_key rnd removed s2
                         else Inr s2)))"

text \<open>\<^verbatim>\<open>step\<close>, lines 105 to 120. The quotient raises ZeroDivisionError for a bit stream
  of length 0.\<close>

definition enc_step :: "model \<Rightarrow> nat \<Rightarrow> enc_state \<Rightarrow> error + retval \<times> enc_state" where
  "enc_step m rnd s =
     (if ee_finished s then Inr (One, s)
      else
        (case (if ee_exhausted s then enc_choose_entrypoint m rnd s
               else enc_choose_next_token m rnd s) of
           Inl e \<Rightarrow> Inl e
         | Inr s' \<Rightarrow>
             if ee_bitstream_length s' = 0 then Inl ZeroDivisionError
             else Inr (Frac (int (ee_bitstream_length s') - int (length (ee_bitstream s')))
                            (int (ee_bitstream_length s')), s')))"

text \<open>The property \<^verbatim>\<open>output\<close>, lines 96 to 99.\<close>

definition enc_output :: "enc_state \<Rightarrow> string" where
  "enc_output s = join_sp (ee_output_tokens s)"

text \<open>\<^verbatim>\<open>generate\<close>, lines 164 to 169. The loop need not end (a model whose lists all have
  one item consumes no bit), so the result is an option: \<open>None\<close> is a loop that runs
  forever, \<open>Some (Inl e)\<close> an exception, \<open>Some (Inr text)\<close> a return.\<close>

partial_function (option) enc_generate ::
  "model \<Rightarrow> nat \<Rightarrow> enc_state \<Rightarrow> (error + string) option" where
  "enc_generate m rnd s =
     (if ee_finished s then Some (Inr (enc_output s))
      else
        (case enc_step m rnd s of
           Inl e \<Rightarrow> Some (Inl e)
         | Inr (v, s') \<Rightarrow> enc_generate m rnd s'))"

declare enc_generate.simps [code]

text \<open>Constructing the encoder and running it.\<close>

definition encode :: "model \<Rightarrow> nat \<Rightarrow> string \<Rightarrow> (error + string) option" where
  "encode m rnd bits =
     (case enc_init m bits of
        Inl e \<Rightarrow> Some (Inl e)
      | Inr s \<Rightarrow> enc_generate m rnd s)"

section \<open>EnhancedDecoder\<close>

record dec_state =
  ed_stega_text :: "token list"
  ed_entrypoints :: "token list"
  ed_output :: string
  ed_endkey :: int
  ed_current_gram :: "gram option"
  ed_exhausted :: bool
  ed_finished :: bool
  ed_index :: nat

text \<open>\<^verbatim>\<open>__init__\<close>, lines 208 to 217.\<close>

definition dec_init :: "model \<Rightarrow> string \<Rightarrow> error + dec_state" where
  "dec_init m stega =
     (case get_entrypoints m of
        Inl e \<Rightarrow> Inl e
      | Inr eps \<Rightarrow>
          Inr \<lparr>ed_stega_text = split_sp stega, ed_entrypoints = eps, ed_output = [],
               ed_endkey = 0, ed_current_gram = None, ed_exhausted = True,
               ed_finished = False, ed_index = 0\<rparr>)"

text \<open>\<^verbatim>\<open>_choose_entrypoint\<close>, lines 254 to 274. \<^verbatim>\<open>token[-1]\<close> raises IndexError on the
  empty string, \<^verbatim>\<open>entrypoints.index(token)\<close> ValueError on a token that is no entry
  point.\<close>

definition dec_choose_entrypoint :: "model \<Rightarrow> dec_state \<Rightarrow> error + dec_state" where
  "dec_choose_entrypoint m s =
     (let s1 = s\<lparr>ed_exhausted := False\<rparr> in
      if ed_index s1 \<ge> length (ed_stega_text s1) then Inl IndexError
      else
        let token = ed_stega_text s1 ! ed_index s1 in
        (case (if token \<notin> set (ed_entrypoints s1)
               then (if token = [] then Inl IndexError
                     else Inr (s1\<lparr>ed_endkey := of_char (last token) - 97\<rparr>, butlast token))
               else Inr (s1, token)) of
           Inl e \<Rightarrow> Inl e
         | Inr (s2, token') \<Rightarrow>
             (case index_of (ed_entrypoints s2) token' of
                Inl e \<Rightarrow> Inl e
              | Inr embedded_index \<Rightarrow>
                  let bit_length0 = int (bit_length_of (length (ed_entrypoints s2)));
                      bit_length =
                        (if int (ed_index s2) = int (length (ed_stega_text s2)) - 1
                         then ed_endkey s2 else bit_length0);
                      bit_string = zfill (bin_digits embedded_index) bit_length
                  in Inr (s2\<lparr>ed_current_gram := Some (entry_gram m token'),
                             ed_output := ed_output s2 @ bit_string\<rparr>))))"

text \<open>\<^verbatim>\<open>_choose_next_token\<close>, lines 276 to 319. \<^verbatim>\<open>log2(0)\<close> raises ValueError for an empty
  dictionary of transitions. The first read of the next token (line 281) is guarded by
  \<^verbatim>\<open>index < len - 1\<close> and cannot raise; the second one (line 296) is guarded by
  \<^verbatim>\<open>at_end\<close> only and gives the same token.\<close>

definition dec_choose_next_token :: "model \<Rightarrow> dec_state \<Rightarrow> error + dec_state" where
  "dec_choose_next_token m s =
     (case dec_get_transitions m (ed_current_gram s) of
        Inl e \<Rightarrow> Inl e
      | Inr transitions \<Rightarrow>
          let n = int (length (ed_stega_text s));
              at_end = (int (ed_index s) = n - 1)
          in
          let list_length = length transitions in
          if list_length = 0 then Inl ValueError
          else
            let bit_length0 = int (dec_bit_length_of list_length) in
            if END \<in> set transitions
            then Inr (s\<lparr>ed_exhausted := True, ed_current_gram := None,
                        ed_index := ed_index s + 1\<rparr>)
            else if \<not> at_end \<and> \<not> Suc (ed_index s) < length (ed_stega_text s)
            then Inl IndexError
            else
              let next_token =
                    (if at_end then [] else ed_stega_text s ! Suc (ed_index s))
              in
              (case (if next_token \<notin> set transitions \<and> \<not> at_end
                     then (if next_token = [] then Inl IndexError
                           else Inr (s\<lparr>ed_endkey := of_char (last next_token) - 97\<rparr>,
                                     butlast next_token))
                     else Inr (s, next_token)) of
                 Inl e \<Rightarrow> Inl e
               | Inr (s2, next_token') \<Rightarrow>
                   let bit_length =
                         (if int (ed_index s2) = n - 2 then ed_endkey s2 else bit_length0)
                   in
                   (case (if bit_length \<noteq> 0
                          then (if at_end then Inr []
                                else (case index_of transitions next_token' of
                                        Inl e \<Rightarrow> Inl e
                                      | Inr embedded_index \<Rightarrow>
                                          Inr (zfill (bin_digits embedded_index) bit_length)))
                          else Inr []) of
                      Inl e \<Rightarrow> Inl e
                    | Inr bit_string \<Rightarrow>
                        (case ed_current_gram s2 of
                           None \<Rightarrow> Inl TypeError
                         | Some gr \<Rightarrow>
                             Inr (s2\<lparr>ed_current_gram := Some (tl (gr @ [next_token'])),
                                     ed_output := ed_output s2 @ bit_string,
                                     ed_index := ed_index s2 + 1\<rparr>)))))"

text \<open>\<^verbatim>\<open>step\<close>, lines 234 to 251. There is no test of \<^verbatim>\<open>finished\<close>: the first test is the
  one that sets it.\<close>

definition dec_step :: "model \<Rightarrow> dec_state \<Rightarrow> error + retval \<times> dec_state" where
  "dec_step m s =
     (if int (ed_index s) \<ge> int (length (ed_stega_text s)) - 1 \<and> \<not> ed_exhausted s
      then Inr (One, s\<lparr>ed_finished := True\<rparr>)
      else
        (case (if ed_exhausted s then dec_choose_entrypoint m s
               else dec_choose_next_token m s) of
           Inl e \<Rightarrow> Inl e
         | Inr s' \<Rightarrow>
             if length (ed_stega_text s') = 0 then Inl ZeroDivisionError
             else Inr (Frac (int (ed_index s')) (int (length (ed_stega_text s'))), s')))"

text \<open>The number of steps that \<^verbatim>\<open>solve\<close> can still make.\<close>

definition dec_measure :: "dec_state \<Rightarrow> nat" where
  "dec_measure s =
     (if ed_finished s then 0
      else 1 + 2 * (length (ed_stega_text s) - ed_index s)
             + (if ed_exhausted s then 1 else 0))"

text \<open>\<^verbatim>\<open>solve\<close>, lines 322 to 327. The loop always ends: every step that does not finish
  moves the index forward or leaves a chain boundary.\<close>

function dec_solve :: "model \<Rightarrow> dec_state \<Rightarrow> error + string" where
  "dec_solve m s =
     (if ed_finished s then Inr (ed_output s)
      else
        (case dec_step m s of
           Inl e \<Rightarrow> Inl e
         | Inr (v, s') \<Rightarrow> dec_solve m s'))"
  by pat_completeness auto
termination
proof (relation "measure (\<lambda>(m, s). dec_measure s)")
  show "wf (measure (\<lambda>(m, s). dec_measure s))"
    by simp
next
  fix m s x v s'
  assume "\<not> ed_finished s" and "dec_step m s = Inr x" and "(v, s') = x"
  then have "dec_measure s' < dec_measure s"
    unfolding dec_step_def dec_choose_entrypoint_def dec_choose_next_token_def
      dec_measure_def
    by (auto simp: Let_def split: if_splits sum.splits option.splits prod.splits)
  then show "((m, s'), (m, s)) \<in> measure (\<lambda>(m, s). dec_measure s)"
    by simp
qed

declare dec_solve.simps [simp del]

text \<open>Constructing the decoder and running it.\<close>

definition decode :: "model \<Rightarrow> string \<Rightarrow> error + string" where
  "decode m stega =
     (case dec_init m stega of
        Inl e \<Rightarrow> Inl e
      | Inr s \<Rightarrow> dec_solve m s)"

section \<open>ExistingEncoder\<close>

text \<open>\<^verbatim>\<open>huffman.codebook\<close> belongs to a library outside the repository. The model takes it
  as the parameter \<open>cb\<close>: a function from the list of (symbol, weight) pairs to the
  dictionary from symbols to code words.\<close>

type_synonym codebook = "matrix \<Rightarrow> (token \<times> string) list"

record xenc_state =
  xe_bitstream :: string
  xe_bitstream_length :: nat
  xe_entrypoints :: "gram list"
  xe_current_gram :: "gram option"
  xe_output_tokens :: "token list"
  xe_exhausted :: bool
  xe_finished :: bool
  xe_c :: "32 word"

text \<open>\<^verbatim>\<open>__init__\<close>, lines 351 to 360: the entry points are whole keys of the model.\<close>

definition xenc_init :: "model \<Rightarrow> string \<Rightarrow> xenc_state" where
  "xenc_init m bits =
     \<lparr>xe_bitstream = bits, xe_bitstream_length = length bits,
      xe_entrypoints = tl (filter (\<lambda>key. BEGIN \<in> set key) (map fst (chain m))),
      xe_current_gram = None, xe_output_tokens = [], xe_exhausted = True,
      xe_finished = False, xe_c = 1\<rparr>"

text \<open>\<^verbatim>\<open>get_transition_matrix\<close>, lines 434 to 435 and 541 to 542.\<close>

definition get_transition_matrix :: "model \<Rightarrow> gram option \<Rightarrow> error + matrix" where
  "get_transition_matrix m g =
     (case g of
        None \<Rightarrow> Inl KeyError
      | Some gr \<Rightarrow> (case map_of (chain m) gr of None \<Rightarrow> Inl KeyError | Some tm \<Rightarrow> Inr tm))"

text \<open>The inverted dictionary \<^verbatim>\<open>{v: k for k, v in huffman_code.items()}\<close>: of two symbols
  with one code word the later one stays.\<close>

definition invert_code :: "(token \<times> string) list \<Rightarrow> string \<Rightarrow> token option" where
  "invert_code code = map_of (rev (map (\<lambda>(k, v). (v, k)) code))"

text \<open>The loop of lines 401 to 408, from \<open>i\<close> down to 1: \<open>None\<close> is the loop that ends
  without \<^verbatim>\<open>break\<close>.\<close>

fun find_code :: "(string \<Rightarrow> token option) \<Rightarrow> string \<Rightarrow> nat \<Rightarrow> (token \<times> nat) option" where
  "find_code look bs 0 = None"
| "find_code look bs (Suc i) =
     (if Suc i \<ge> length bs then find_code look bs i
      else (case look (take (Suc i) bs) of
              Some t \<Rightarrow> Some (t, Suc i)
            | None \<Rightarrow> find_code look bs i))"

text \<open>\<^verbatim>\<open>max\<close> of the lengths of the code words; \<^verbatim>\<open>max([])\<close> raises ValueError.\<close>

definition tree_depth_of :: "string list \<Rightarrow> error + nat" where
  "tree_depth_of codes =
     (if codes = [] then Inl ValueError else Inr (foldr max (map length codes) 0))"

text \<open>\<^verbatim>\<open>step\<close>, lines 371 to 432. \<open>rnd\<close> stands for \<^verbatim>\<open>random.choice\<close>, which raises IndexError
  on an empty list; \<^verbatim>\<open>current_gram[1]\<close> raises IndexError on a key of one token.\<close>

definition xenc_step ::
  "model \<Rightarrow> codebook \<Rightarrow> nat \<Rightarrow> xenc_state \<Rightarrow> error + retval \<times> xenc_state" where
  "xenc_step m cb rnd s =
     (if xe_finished s then Inr (NoneVal, s)
      else
        (case
           (if xe_exhausted s then
              (let s1 = s\<lparr>xe_exhausted := False\<rparr> in
               if xe_entrypoints s1 = [] then Inl IndexError
               else
                 let g = xe_entrypoints s1 ! (rnd mod length (xe_entrypoints s1)) in
                 if length g < 2 then Inl IndexError
                 else Inr (s1\<lparr>xe_current_gram := Some g,
                              xe_output_tokens := xe_output_tokens s1 @ [g ! 1]\<rparr>))
            else
              (case get_transition_matrix m (xe_current_gram s) of
                 Inl e \<Rightarrow> Inl e
               | Inr trans_matrix \<Rightarrow>
                   (case
                      (if length trans_matrix > 1 then
                         (let s1 = s\<lparr>xe_c := xe_c s + 1\<rparr>;
                              huffman_code = cb trans_matrix
                          in case tree_depth_of (map snd huffman_code) of
                               Inl e \<Rightarrow> Inl e
                             | Inr tree_depth \<Rightarrow>
                                 (case find_code (invert_code huffman_code)
                                         (xe_bitstream s1) tree_depth of
                                    Some (next_token, cnt) \<Rightarrow>
                                      Inr (s1\<lparr>xe_bitstream := drop cnt (xe_bitstream s1)\<rparr>,
                                           next_token)
                                  | None \<Rightarrow>
                                      Inr (s1\<lparr>xe_bitstream :=
                                                 drop (length (xe_bitstream s1))
                                                   (xe_bitstream s1)\<rparr>,
                                           ''<'' @ xe_bitstream s1 @ ''>'')))
                       else
                         (case trans_matrix of
                            [] \<Rightarrow> Inl IndexError
                          | kv # _ \<Rightarrow> Inr (s, fst kv))) of
                      Inl e \<Rightarrow> Inl e
                    | Inr (s2, next_token) \<Rightarrow>
                        (case xe_current_gram s2 of
                           None \<Rightarrow> Inl TypeError
                         | Some gr \<Rightarrow>
                             let s3 = s2\<lparr>xe_current_gram := Some (tl (gr @ [next_token]))\<rparr>
                             in if next_token \<noteq> END
                                then Inr (s3\<lparr>xe_output_tokens :=
                                              xe_output_tokens s3 @ [next_token]\<rparr>)
                                else Inr (s3\<lparr>xe_exhausted := True,
                                             xe_current_gram := None\<rparr>))))) of
           Inl e \<Rightarrow> Inl e
         | Inr s' \<Rightarrow>
             let s'' = (if xe_bitstream s' = [] then s'\<lparr>xe_finished := True\<rparr> else s') in
             if xe_bitstream_length s'' = 0 then Inl ZeroDivisionError
             else Inr (Frac (int (xe_bitstream_length s'') - int (length (xe_bitstream s'')))
                            (int (xe_bitstream_length s'')), s'')))"

section \<open>ExistingDecoder\<close>

record xdec_state =
  xd_stega_text :: "token list"
  xd_entrypoints :: "token list"
  xd_endkey :: int
  xd_current_gram :: "gram option"
  xd_index :: nat
  xd_exhausted :: bool
  xd_finished :: bool
  xd_output :: string

text \<open>\<^verbatim>\<open>__init__\<close>, lines 454 to 463. \<^verbatim>\<open>key[1]\<close> is read for every key that holds START,
  before the slice, and raises IndexError on a key of one token.\<close>

definition xdec_init :: "model \<Rightarrow> string \<Rightarrow> error + xdec_state" where
  "xdec_init m stega =
     (let keys = filter (\<lambda>key. BEGIN \<in> set key) (map fst (chain m)) in
      if \<exists>key \<in> set keys. length key < 2 then Inl IndexError
      else
        Inr \<lparr>xd_stega_text = split_sp stega,
             xd_entrypoints = tl (map (\<lambda>key. key ! 1) keys),
             xd_endkey = 0, xd_current_gram = None, xd_index = 0, xd_exhausted = True,
             xd_finished = False, xd_output = []\<rparr>)"

text \<open>\<^verbatim>\<open>self.current_gram[1][-1] in ".?!"\<close>: IndexError on a gram of one token and on an
  empty token.\<close>

definition ends_sentence :: "gram \<Rightarrow> error + bool" where
  "ends_sentence g =
     (if length g < 2 then Inl IndexError
      else if g ! 1 = [] then Inl IndexError
      else Inr (last (g ! 1) \<in> {CHR ''.'', CHR ''?'', CHR ''!''}))"

text \<open>\<^verbatim>\<open>re.match(r"<[01]+>", token)\<close>: the pattern is matched at the start of the token.\<close>

definition is_literal :: "token \<Rightarrow> bool" where
  "is_literal t =
     (case t of
        [] \<Rightarrow> False
      | c # cs \<Rightarrow>
          c = CHR ''<'' \<and> takeWhile is_bit cs \<noteq> []
          \<and> (case dropWhile is_bit cs of [] \<Rightarrow> False | d # _ \<Rightarrow> d = CHR ''>''))"

text \<open>The string that line 513 puts in the place of a literal token: it is no f-string,
  so the braces stay.\<close>

definition INVALID :: token where
  "INVALID = ''INVALID TOKEN {next_token}''"

text \<open>\<^verbatim>\<open>step\<close>, lines 473 to 532. The local \<^verbatim>\<open>previous\<close> is never read. Where the gram is
  read, the lookup has succeeded, so it is not \<^verbatim>\<open>None\<close>.\<close>

definition xdec_step ::
  "model \<Rightarrow> codebook \<Rightarrow> xdec_state \<Rightarrow> error + retval \<times> xdec_state" where
  "xdec_step m cb s =
     (if int (xd_index s) \<ge> int (length (xd_stega_text s)) - 1 \<and> \<not> xd_exhausted s
      then Inr (NoneVal, s\<lparr>xd_finished := True\<rparr>)
      else
        (case
           (if xd_exhausted s then
              (if xd_index s \<ge> length (xd_stega_text s) then Inl IndexError
               else Inr (s\<lparr>xd_current_gram := Some [BEGIN, xd_stega_text s ! xd_index s],
                           xd_exhausted := False\<rparr>))
            else
              (case get_transition_matrix m (xd_current_gram s) of
                 Inl e \<Rightarrow> Inl e
               | Inr trans_matrix \<Rightarrow>
                   let at_end = (int (xd_index s) = int (length (xd_stega_text s)) - 1) in
                   if \<not> at_end \<and> \<not> Suc (xd_index s) < length (xd_stega_text s)
                   then Inl IndexError
                   else
                     let next_token =
                           (if at_end then [] else xd_stega_text s ! Suc (xd_index s));
                         gr = (case xd_current_gram s of None \<Rightarrow> [] | Some g \<Rightarrow> g)
                     in
                     (case
                        (if length trans_matrix > 1 then
                           (let huffman_code = cb trans_matrix in
                            case tree_depth_of (map snd huffman_code) of
                              Inl e \<Rightarrow> Inl e
                            | Inr tree_depth \<Rightarrow>
                                (case ends_sentence gr of
                                   Inl e \<Rightarrow> Inl e
                                 | Inr punct \<Rightarrow>
                                     let forced =
                                           (punct \<and> END \<in> fst ` set trans_matrix
                                            \<and> next_token \<notin> fst ` set trans_matrix);
                                         s1 = (if forced then s\<lparr>xd_exhausted := True\<rparr> else s);
                                         next_token1 = (if forced then END else next_token)
                                     in
                                     if is_literal next_token1 then Inr (s1, INVALID, [])
                                     else if at_end then Inr (s1, next_token1, [])
                                     else
                                       (case map_of huffman_code next_token1 of
                                          None \<Rightarrow> Inl KeyError
                                        | Some code \<Rightarrow> Inr (s1, next_token1, code))))
                         else
                           (case ends_sentence gr of
                              Inl e \<Rightarrow> Inl e
                            | Inr punct \<Rightarrow>
                                if punct \<and> END \<in> fst ` set trans_matrix
                                then Inr (s\<lparr>xd_exhausted := True\<rparr>, END, [])
                                else Inr (s, next_token, []))) of
                        Inl e \<Rightarrow> Inl e
                      | Inr (s2, next_token2, bit_string) \<Rightarrow>
                          Inr (s2\<lparr>xd_current_gram := Some (tl (gr @ [next_token2])),
                                  xd_index := xd_index s2 + 1,
                                  xd_output := xd_output s2 @ bit_string\<rparr>)))) of
           Inl e \<Rightarrow> Inl e
         | Inr s' \<Rightarrow>
             if length (xd_stega_text s') = 0 then Inl ZeroDivisionError
             else Inr (Frac (int (xd_index s')) (int (length (xd_stega_text s'))), s')))"





section \<open>Sessions and examples\<close>

text \<open>The states a decoder session passes through: the state after construction, and
  every state that a call of \<^verbatim>\<open>step\<close> returns.\<close>

inductive dec_reachable :: "model \<Rightarrow> dec_state \<Rightarrow> bool" for m :: model where
  dec_start: "dec_init m stega = Inr s \<Longrightarrow> dec_reachable m s"
| dec_next: "dec_reachable m s \<Longrightarrow> dec_step m s = Inr (v, s') \<Longrightarrow> dec_reachable m s'"

inductive xdec_reachable :: "model \<Rightarrow> codebook \<Rightarrow> xdec_state \<Rightarrow> bool"
  for m :: model and cb :: codebook where
  xdec_start: "xdec_init m stega = Inr s \<Longrightarrow> xdec_reachable m cb s"
| xdec_next:
    "xdec_reachable m cb s \<Longrightarrow> xdec_step m cb s = Inr (v, s') \<Longrightarrow> xdec_reachable m cb s'"

text \<open>The number that a string of bits denotes.\<close>

definition bits_val :: "string \<Rightarrow> nat" where
  "bits_val s = foldl (\<lambda>a c. 2 * a + bit_val c) 0 s"

text \<open>A prefix code for the examples, in the place of \<^verbatim>\<open>huffman.codebook\<close>: the symbols
  get the code words 0, 10, 110, ... in their order, the last one the word of ones only.
  Two symbols get the words 0 and 1, as in every Huffman code of two symbols.\<close>

fun unary_codes :: "nat \<Rightarrow> token list \<Rightarrow> (token \<times> string) list" where
  "unary_codes n [] = []"
| "unary_codes n [t] = [(t, replicate n (CHR ''1''))]"
| "unary_codes n (t # u # ts) =
     (t, replicate n (CHR ''1'') @ ''0'') # unary_codes (Suc n) (u # ts)"

definition example_codebook :: codebook where
  "example_codebook tm = unary_codes 0 (map fst tm)"

text \<open>A model with two tokens of equal frequency twice.\<close>

definition tie_model :: model where
  "tie_model = \<lparr>state_size = 1,
     chain = [([''x''], [(''a'', 1), (''b'', 2), (''c'', 1), (''d'', 2)])]\<rparr>"

definition one_entry_model :: model where
  "one_entry_model = \<lparr>state_size = 1, chain = [([BEGIN], [(''hello'', 1)])]\<rparr>"

text \<open>The model of the entry-point example: state size 2 and the keys (START, START),
  (START, the), (START, a).\<close>

definition k2_model :: model where
  "k2_model = \<lparr>state_size = 2,
     chain = [([BEGIN, BEGIN], [(''the'', 1), (''a'', 1)]),
              ([BEGIN, ''the''], [(''cat'', 1)]),
              ([BEGIN, ''a''], [(''dog'', 1)])]\<rparr>"

definition demo_model :: model where
  "demo_model = \<lparr>state_size = 2,
     chain = [([BEGIN, BEGIN], [(''the'', 1), (''a'', 1)]),
              ([BEGIN, ''the''], [(''cat'', 1), (''dog'', 1)]),
              ([BEGIN, ''a''], [(''cat'', 1), (''dog'', 1)])]\<rparr>"


definition punct_model :: model where
  "punct_model = \<lparr>state_size = 2,
     chain = [([BEGIN, BEGIN], [(''hi.'', 1)]),
              ([BEGIN, ''hi.''], [(END, 1), (''there'', 1)])]\<rparr>"

definition k3_model :: model where
  "k3_model = \<lparr>state_size = 3,
     chain = [([BEGIN, BEGIN, BEGIN], [(''the'', 1)]),
              ([BEGIN, BEGIN, ''the''], [(''cat'', 1)]),
              ([BEGIN, ''the'', ''cat''], [(END, 1)])]\<rparr>"

text \<open>An encoder state whose last selection has emptied the bit stream.\<close>

definition key_state :: enc_state where
  "key_state = \<lparr>ee_bitstream = [], ee_bitstream_length = 32, ee_entrypoints = [''the''],
     ee_current_gram = Some [''the''], ee_output_tokens = [''the''], ee_exhausted = False,
     ee_finished = False, ee_end_key = 0\<rparr>"

text \<open>Final states of the four sessions on \<open>demo_model\<close>.\<close>

definition enc_done :: enc_state where
  "enc_done = \<lparr>ee_bitstream = [], ee_bitstream_length = 1, ee_entrypoints = [''a''],
     ee_current_gram = Some [''a'', ''dog''], ee_output_tokens = [''a'', ''dogb''],
     ee_exhausted = False, ee_finished = True, ee_end_key = 1\<rparr>"

definition xenc_done :: xenc_state where
  "xenc_done = \<lparr>xe_bitstream = [], xe_bitstream_length = 1,
     xe_entrypoints = [[BEGIN, ''the''], [BEGIN, ''a'']],
     xe_current_gram = Some [''a'', ''<1>''], xe_output_tokens = [''a'', ''<1>''],
     xe_exhausted = False, xe_finished = True, xe_c = 2\<rparr>"

definition dec_done :: dec_state where
  "dec_done = \<lparr>ed_stega_text = [''a'', ''dogb''], ed_entrypoints = [''a''],
     ed_output = ''01'', ed_endkey = 1, ed_current_gram = Some [''a'', ''dog''],
     ed_exhausted = False, ed_finished = True, ed_index = 1\<rparr>"

definition xdec_done :: xdec_state where
  "xdec_done = \<lparr>xd_stega_text = [''a'', ''dog''], xd_entrypoints = [''the'', ''a''],
     xd_endkey = 0, xd_current_gram = Some [''a'', ''dog''], xd_index = 1,
     xd_exhausted = False, xd_finished = True, xd_output = ''1''\<rparr>"


definition punct_state :: xdec_state where
  "punct_state = \<lparr>xd_stega_text = [''hi.'', ''there''], xd_entrypoints = [''hi.''],
     xd_endkey = 0, xd_current_gram = Some [BEGIN, ''hi.''], xd_index = 0,
     xd_exhausted = False, xd_finished = False, xd_output = []\<rparr>"

definition punct_state2 :: xdec_state where
  "punct_state2 = punct_state\<lparr>xd_stega_text := [''hi.'', ''bye'']\<rparr>"

definition stop_model :: model where
  "stop_model = \<lparr>state_size = 2,
     chain = [([BEGIN, BEGIN], [(''end.'', 1)]),
              ([BEGIN, ''end.''], [(END, 1)])]\<rparr>"

definition stop_state :: xdec_state where
  "stop_state = \<lparr>xd_stega_text = [''end.'', ''more''], xd_entrypoints = [''end.''],
     xd_endkey = 0, xd_current_gram = Some [BEGIN, ''end.''], xd_index = 0,
     xd_exhausted = False, xd_finished = False, xd_output = []\<rparr>"

definition k3_dec_entry :: xdec_state where
  "k3_dec_entry = \<lparr>xd_stega_text = [''the'', ''cat''], xd_entrypoints = [BEGIN, ''the''],
     xd_endkey = 0, xd_current_gram = None, xd_index = 0, xd_exhausted = True,
     xd_finished = False, xd_output = []\<rparr>"

definition k3_enc_entry :: xenc_state where
  "k3_enc_entry = \<lparr>xe_bitstream = ''1'', xe_bitstream_length = 1,
     xe_entrypoints = [[BEGIN, BEGIN, ''the''], [BEGIN, ''the'', ''cat'']],
     xe_current_gram = Some [BEGIN, BEGIN, ''the''], xe_output_tokens = [BEGIN],
     xe_exhausted = False, xe_finished = False, xe_c = 1\<rparr>"

section \<open>The run of the Enhanced encoder\<close>

text \<open>The loop of \<^verbatim>\<open>generate\<close> with a bound on the number of steps: \<open>None\<close> when the bound
  is reached before the encoder has finished.\<close>

fun enc_iter :: "model \<Rightarrow> nat \<Rightarrow> nat \<Rightarrow> enc_state \<Rightarrow> (error + enc_state) option" where
  "enc_iter m rnd 0 s = (if ee_finished s then Some (Inr s) else None)"
| "enc_iter m rnd (Suc n) s =
     (if ee_finished s then Some (Inr s)
      else (case enc_step m rnd s of
              Inl e \<Rightarrow> Some (Inl e)
            | Inr (v, s') \<Rightarrow> enc_iter m rnd n s'))"

text \<open>The tokens of a candidate list that a selection can return: a selection reads
  \<open>bit_length_of n\<close> bits, so it returns one of the first \<open>2 ^ bit_length_of n\<close> items.\<close>

definition addressable :: "token list \<Rightarrow> token list" where
  "addressable l = take (2 ^ bit_length_of (length l)) l"

text \<open>A candidate list in which the decoder can tell a token that carries the end key
  from a candidate, for end keys up to \<open>K\<close>: the tokens that a selection can return are
  distinct (they are keys of a dictionary) and have no blank, the code length of the list
  is at most \<open>K\<close>, and no such token followed by the marker \<^verbatim>\<open>chr(97 + c)\<close> of an end key
  \<open>1 \<le> c \<le> K\<close> is a token of the list.\<close>

definition marker_safe :: "nat \<Rightarrow> token list \<Rightarrow> bool" where
  "marker_safe K l =
     (distinct (addressable l) \<and> bit_length_of (length l) \<le> K
      \<and> (\<forall>t \<in> set (addressable l).
            CHR '' '' \<notin> set t
            \<and> (\<forall>c \<in> set [1..<Suc K]. t @ [char_of (c + 97)] \<notin> set l)))"

text \<open>A set \<open>G\<close> of contexts that holds every context of a run of the encoder: the
  contexts of the entry points that a selection can return are in \<open>G\<close>, and for every
  context of \<open>G\<close> that is a key without END among its transitions, the contexts that
  follow the tokens that a selection can return are in \<open>G\<close>. The set of all contexts is
  closed in this way.\<close>

definition closed_under :: "model \<Rightarrow> token list \<Rightarrow> gram set \<Rightarrow> bool" where
  "closed_under m eps G =
     ((\<forall>t \<in> set (addressable eps). entry_gram m t \<in> G)
      \<and> (\<forall>g \<in> G.
            case map_of (chain m) g of
              None \<Rightarrow> True
            | Some tm \<Rightarrow>
                END \<in> fst ` set tm
                \<or> (\<forall>t \<in> set (addressable (map fst (sorted_desc tm))).
                      tl (g @ [t]) \<in> G)))"

text \<open>A model in which the marker is unambiguous in every run: the entry points, and the
  sorted transitions of every context of \<open>G\<close> that is a key without END, are lists as
  above. With \<open>G = UNIV\<close> this asks for the candidate lists of the whole model.\<close>

definition run_safe :: "model \<Rightarrow> token list \<Rightarrow> nat \<Rightarrow> gram set \<Rightarrow> bool" where
  "run_safe m eps K G =
     (closed_under m eps G \<and> marker_safe K eps
      \<and> (\<forall>g \<in> G.
            case map_of (chain m) g of
              None \<Rightarrow> True
            | Some tm \<Rightarrow>
                END \<in> fst ` set tm \<or> marker_safe K (map fst (sorted_desc tm))))"

text \<open>Contexts on which the encoder neither raises nor loops: every context of \<open>G\<close> is a
  key with transitions, and a context with one transition other than END (its selection
  consumes no bit) leads to a context of lower rank \<open>rk\<close>, so that no run stays in such
  contexts forever.\<close>

definition run_returns :: "model \<Rightarrow> gram set \<Rightarrow> (gram \<Rightarrow> nat) \<Rightarrow> bool" where
  "run_returns m G rk =
     (\<forall>g \<in> G.
        case map_of (chain m) g of
          None \<Rightarrow> False
        | Some tm \<Rightarrow>
            tm \<noteq> []
            \<and> (END \<in> fst ` set tm \<or> length tm \<noteq> 1
                \<or> rk (tl (g @ [fst (hd tm)])) < rk g))"

text \<open>The index that \<^verbatim>\<open>_consume_from_list\<close> reads from a stream of bits.\<close>

definition sel_idx :: "token list \<Rightarrow> string \<Rightarrow> nat" where
  "sel_idx lst bs =
     (if bit_length_of (length lst) = 0 then 0
      else bits_val (take (bit_length_of (length lst)) bs))"

text \<open>The token at position \<open>k\<close> of the text, when the token at position \<open>i\<close> carries the
  end key \<open>c\<close>.\<close>

definition mark_token :: "nat \<Rightarrow> nat \<Rightarrow> nat \<Rightarrow> token \<Rightarrow> token" where
  "mark_token i c k t = (if k = i then t @ [char_of (c + 97)] else t)"

text \<open>The end of \<^verbatim>\<open>_choose_entrypoint\<close> and \<^verbatim>\<open>_choose_next_token\<close>: the end key is injected
  when the bit stream is empty.\<close>

definition enc_emit :: "nat \<Rightarrow> string \<Rightarrow> enc_state \<Rightarrow> enc_state" where
  "enc_emit rnd removed s =
     (if ee_bitstream s = []
      then s\<lparr>ee_end_key := length removed,
             ee_output_tokens :=
               (ee_output_tokens s)[rnd mod length (ee_output_tokens s) :=
                  ee_output_tokens s ! (rnd mod length (ee_output_tokens s))
                    @ [char_of (length removed + 97)]],
             ee_finished := True\<rparr>
      else s)"

text \<open>The decoder state \<open>d\<close> that matches the encoder state \<open>e\<close>, on the text \<open>S\<close> whose
  token \<open>i\<close> carries the end key \<open>c\<close>: the decoder has read the tokens that the encoder
  has emitted.\<close>

definition sim :: "token list \<Rightarrow> nat \<Rightarrow> nat \<Rightarrow> enc_state \<Rightarrow> dec_state \<Rightarrow> bool" where
  "sim S i c e d =
     (ed_stega_text d = S \<and> ed_entrypoints d = ee_entrypoints e \<and> \<not> ed_finished d
      \<and> ed_exhausted d = ee_exhausted e
      \<and> (\<not> ee_exhausted e \<longrightarrow>
            ed_current_gram d = ee_current_gram e \<and> ee_output_tokens e \<noteq> [])
      \<and> ed_index d = (if ee_exhausted e then length (ee_output_tokens e)
                       else length (ee_output_tokens e) - 1)
      \<and> ed_endkey d = (if i < length (ee_output_tokens e) then int c else 0))"

text \<open>The list from which the next step of the encoder selects: the entry points at a
  chain boundary, the sorted transitions of the context inside a chain.\<close>

definition step_list :: "model \<Rightarrow> enc_state \<Rightarrow> error + token list" where
  "step_list m s =
     (if ee_exhausted s then Inr (ee_entrypoints s)
      else enc_get_transitions m (ee_current_gram s))"

text \<open>A step of the encoder whose token the decoder can read back, when the token at
  position \<open>i\<close> of the text is the one that carries the end key \<open>c\<close>: the selected token
  has no blank, it stands at no earlier position of the list than the selected one (so
  that \<^verbatim>\<open>index\<close> finds the selected position), and when it is token \<open>i\<close> of the text, then
  with the marker \<^verbatim>\<open>chr(97 + c)\<close> it is no token of the list. A step that ends a chain,
  and a step that raises, select no token.\<close>

definition step_ok :: "model \<Rightarrow> nat \<Rightarrow> nat \<Rightarrow> enc_state \<Rightarrow> bool" where
  "step_ok m i c s =
     (case step_list m s of
        Inl e \<Rightarrow> True
      | Inr lst \<Rightarrow>
          lst = [] \<or> (\<not> ee_exhausted s \<and> END \<in> set lst)
          \<or> (let idx = sel_idx lst (ee_bitstream s); tok = lst ! idx in
               CHR '' '' \<notin> set tok \<and> index_of lst tok = Inr idx
               \<and> (length (ee_output_tokens s) = i \<longrightarrow>
                     tok @ [char_of (c + 97)] \<notin> set lst)))"

text \<open>A run of the encoder, of at most \<open>n\<close> steps, all of whose steps are such steps.\<close>

fun run_ok :: "model \<Rightarrow> nat \<Rightarrow> nat \<Rightarrow> nat \<Rightarrow> nat \<Rightarrow> enc_state \<Rightarrow> bool" where
  "run_ok m rnd 0 i c s = True"
| "run_ok m rnd (Suc n) i c s =
     (ee_finished s
      \<or> (step_ok m i c s
          \<and> (case enc_step m rnd s of
                Inl e \<Rightarrow> True
              | Inr (v, s') \<Rightarrow> run_ok m rnd n i c s')))"

text \<open>An encoder state from which a step can be made, with its context in \<open>G\<close>, and the
  measure that every step lowers in the lexicographic order: the bits that are left,
  then the rank of the context (a chain boundary comes first).\<close>

definition enc_ready :: "gram set \<Rightarrow> token list \<Rightarrow> enc_state \<Rightarrow> bool" where
  "enc_ready G eps s =
     (\<not> ee_finished s \<and> ee_bitstream s \<noteq> [] \<and> list_all is_bit (ee_bitstream s)
      \<and> ee_bitstream_length s \<noteq> 0 \<and> ee_entrypoints s = eps
      \<and> (\<not> ee_exhausted s \<longrightarrow>
            (case ee_current_gram s of None \<Rightarrow> False | Some g \<Rightarrow> g \<in> G)))"

definition enc_measure :: "(gram \<Rightarrow> nat) \<Rightarrow> enc_state \<Rightarrow> nat \<times> nat" where
  "enc_measure rk s =
     (length (ee_bitstream s),
      if ee_exhausted s then 0
      else (case ee_current_gram s of None \<Rightarrow> 0 | Some g \<Rightarrow> Suc (rk g)))"

text \<open>Models of state size 1. In the first one a candidate (ab) is another candidate (a)
  with the marker of the end key 1; the second one has a single entry point; the third one has a
  token with a blank. The last one has a candidate that is another candidate with one
  more character that is no marker (sat and sat.), contexts with one candidate, and a
  candidate (ran) that no selection returns and that is no key.\<close>

definition ab_model :: model where
  "ab_model = \<lparr>state_size = 1,
     chain = [([BEGIN], [(''a'', 1), (''ab'', 1)]),
              ([''a''], [(''a'', 1), (''ab'', 1)]),
              ([''ab''], [(''a'', 1), (''ab'', 1)])]\<rparr>"

definition solo_model :: model where
  "solo_model = \<lparr>state_size = 1,
     chain = [([BEGIN], [(''s'', 1)]),
              ([''s''], [(''s'', 1), (''t'', 1)]),
              ([''t''], [(''s'', 1), (''t'', 1)])]\<rparr>"

definition blank_model :: model where
  "blank_model = \<lparr>state_size = 1,
     chain = [([BEGIN], [(''a b'', 1), (''c'', 1)]),
              ([''a b''], [(END, 1)]),
              ([''c''], [(END, 1)])]\<rparr>"

definition sat_model :: model where
  "sat_model = \<lparr>state_size = 1,
     chain = [([BEGIN], [(''the'', 2), (''a'', 1)]),
              ([''the''], [(''cat'', 1)]),
              ([''a''], [(''cat'', 1)]),
              ([''cat''], [(''sat'', 2), (''sat.'', 1), (''ran'', 1)]),
              ([''sat''], [(''on'', 3), (''the'', 2), (''a'', 1), (''sat.'', 1)]),
              ([''on''], [(''the'', 1)]),
              ([''sat.''], [(END, 1)])]\<rparr>"

definition sat_contexts :: "gram set" where
  "sat_contexts = {[''the''], [''a''], [''cat''], [''sat''], [''on''], [''sat.'']}"

definition sat_rank :: "gram \<Rightarrow> nat" where
  "sat_rank g = (if g = [''on''] then 2 else if g = [''the''] \<or> g = [''a''] then 1 else 0)"

text \<open>The first and the last state of the encoder on \<open>sat_model\<close>, for the bits of the byte
  69 and the random number 5.\<close>

definition sat_start :: enc_state where
  "sat_start = \<lparr>ee_bitstream = ''01000101'', ee_bitstream_length = 8,
     ee_entrypoints = [''the'', ''a''], ee_current_gram = None, ee_output_tokens = [],
     ee_exhausted = True, ee_finished = False, ee_end_key = 0\<rparr>"

definition sat_final :: enc_state where
  "sat_final = \<lparr>ee_bitstream = [], ee_bitstream_length = 8,
     ee_entrypoints = [''the'', ''a''], ee_current_gram = Some [''the''],
     ee_output_tokens = [''the'', ''cat'', ''sat.'', ''the'', ''cat'', ''satb'', ''the'',
       ''cat'', ''sat'', ''the''],
     ee_exhausted = False, ee_finished = True, ee_end_key = 1\<rparr>"

text \<open>The first and the last state of the encoder on \<open>ab_model\<close>, for the bits of the byte
  128 and the random number 0: the marker is on the token ab.\<close>

definition ab_start :: enc_state where
  "ab_start = \<lparr>ee_bitstream = ''10000000'', ee_bitstream_length = 8,
     ee_entrypoints = [''a'', ''ab''], ee_current_gram = None, ee_output_tokens = [],
     ee_exhausted = True, ee_finished = False, ee_end_key = 0\<rparr>"

definition ab_final :: enc_state where
  "ab_final = \<lparr>ee_bitstream = [], ee_bitstream_length = 8,
     ee_entrypoints = [''a'', ''ab''], ee_current_gram = Some [''a''],
     ee_output_tokens = [''abb'', ''a'', ''a'', ''a'', ''a'', ''a'', ''a'', ''a''],
     ee_exhausted = False, ee_finished = True, ee_end_key = 1\<rparr>"

section \<open>Properties\<close>

lemmas string_defs = BEGIN_def END_def INVALID_def

subsection \<open>Code lengths\<close>

lemma ceil_log2_eq: "ceil_log2 n = ceillog2 n"
proof (induction n rule: ceil_log2.induct)
  case (1 n)
  show ?case
    using 1 by (subst ceil_log2.simps, subst ceillog2_rec) auto
qed

lemma bit_length_of_bounds:
  assumes "1 \<le> n"
  shows "2 ^ bit_length_of n \<le> n \<and> n < 2 ^ (bit_length_of n + 1)"
proof -
  define b where "b = ceillog2 n"
  have le: "n \<le> 2 ^ b"
    unfolding b_def by (rule le_two_power_ceillog2)
  have gt: "2 ^ b < 2 * n"
    unfolding b_def using assms by (intro two_power_ceillog2_gt) simp
  show ?thesis
  proof (cases "n < 2 ^ b")
    case True
    then have "b \<noteq> 0" using assms by (cases b) auto
    then obtain b' where b': "b = Suc b'" by (cases b) auto
    with True gt show ?thesis
      by (simp add: bit_length_of_def ceil_log2_eq b_def [symmetric])
  next
    case False
    with le have "n = 2 ^ b" by simp
    with False show ?thesis
      by (simp add: bit_length_of_def ceil_log2_eq b_def [symmetric])
  qed
qed

lemma bit_length_of_floor:
  assumes "1 \<le> n"
  shows "int (bit_length_of n) = \<lfloor>log 2 (real n)\<rfloor>"
  using floor_log_nat_eq_if [of 2 "bit_length_of n" n] bit_length_of_bounds [OF assms]
  by simp

lemma dec_bit_length_of_eq: "dec_bit_length_of n = bit_length_of n"
  by (auto simp: dec_bit_length_of_def bit_length_of_def Let_def ceil_log2.simps)

lemma bits_val_snoc: "bits_val (s @ [c]) = 2 * bits_val s + bit_val c"
  by (simp add: bits_val_def)

lemma bits_val_less: "bits_val s < 2 ^ length s"
proof (induction s rule: rev_induct)
  case Nil
  show ?case by (simp add: bits_val_def)
next
  case (snoc c s)
  have "bit_val c \<le> 1" by (simp add: bit_val_def)
  with snoc show ?case by (simp add: bits_val_snoc)
qed

lemma int_base2_bits:
  assumes "s \<noteq> []" and "list_all is_bit s"
  shows "int_base2 s = Inr (bits_val s)"
  using assms by (simp add: int_base2_def bits_val_def)

lemma consume_from_list_total:
  assumes "lst \<noteq> []" and "bs \<noteq> []" and "list_all is_bit bs"
  shows "consume_from_list lst bs =
           Inr ((lst ! (if bit_length_of (length lst) = 0 then 0
                        else bits_val (take (bit_length_of (length lst)) bs)),
                 take (bit_length_of (length lst)) bs, bit_length_of (length lst),
                 (if bit_length_of (length lst) = 0 then 0
                  else bits_val (take (bit_length_of (length lst)) bs))),
                drop (bit_length_of (length lst)) bs)"
proof (cases "bit_length_of (length lst) = 0")
  case True
  with assms show ?thesis
    by (simp add: consume_from_list_def Let_def)
next
  case False
  define L where "L = bit_length_of (length lst)"
  have ne: "take L bs \<noteq> []" using False assms(2) by (simp add: L_def)
  have bits: "list_all is_bit (take L bs)"
    using assms(3) by (auto simp: list_all_iff dest: in_set_takeD)
  have "bits_val (take L bs) < 2 ^ length (take L bs)" by (rule bits_val_less)
  also have "\<dots> \<le> 2 ^ L" by simp
  also have "\<dots> \<le> length lst"
    using bit_length_of_bounds [of "length lst"] assms(1) by (simp add: L_def Suc_leI)
  finally have "bits_val (take L bs) < length lst" .
  with False ne bits assms(1) show ?thesis
    by (simp add: consume_from_list_def Let_def L_def [symmetric] int_base2_bits)
qed

lemma bit_length_of_zero_iff:
  assumes "1 \<le> n"
  shows "bit_length_of n = 0 \<longleftrightarrow> n = 1"
proof
  assume "bit_length_of n = 0"
  with bit_length_of_bounds [OF assms] show "n = 1" by simp
next
  assume "n = 1"
  then show "bit_length_of n = 0" by (simp add: bit_length_of_def ceil_log2.simps)
qed

text \<open>Claim C6, as amended. One selection step with a list of \<open>n \<ge> 1\<close> items and a bit
  stream that is not empty succeeds; its code length is \<open>floor (log2 n)\<close>, the same number
  that the decoder computes; it consumes \<open>floor (log2 n)\<close> bits when that many are left and
  all the bits that are left otherwise. For \<open>n\<close> = 1, 2, 3, 4, 5, 8, 9 the code length is
  0, 1, 1, 2, 2, 3, 3.\<close>

theorem code_length_formula:
  assumes "lst \<noteq> []" and "bs \<noteq> []" and "list_all is_bit bs"
  shows "\<exists>tok removed bl idx rest.
           consume_from_list lst bs = Inr ((tok, removed, bl, idx), rest)
           \<and> int bl = \<lfloor>log 2 (real (length lst))\<rfloor>
           \<and> dec_bit_length_of (length lst) = bl
           \<and> length removed = min bl (length bs)
           \<and> removed @ rest = bs
           \<and> map bit_length_of [1, 2, 3, 4, 5, 8, 9] = [0, 1, 1, 2, 2, 3, 3]"
proof -
  have "map bit_length_of [1, 2, 3, 4, 5, 8, 9] = [0, 1, 1, 2, 2, 3, 3]"
    by (simp add: bit_length_of_def ceil_log2.simps)
  moreover have "int (bit_length_of (length lst)) = \<lfloor>log 2 (real (length lst))\<rfloor>"
    using assms(1) by (intro bit_length_of_floor) (simp add: Suc_leI)
  ultimately show ?thesis
    using consume_from_list_total [OF assms]
    by (simp add: dec_bit_length_of_eq)
qed

theorem code_length_formula_witness:
  "consume_from_list [''w'', ''x'', ''y'', ''z'', ''v''] ''110'' = Inr ((''z'', ''11'', 2, 3), ''0'')
   \<and> (2::int) = \<lfloor>log 2 (real (length [''w'', ''x'', ''y'', ''z'', ''v'']))\<rfloor>
   \<and> dec_bit_length_of (length [''w'', ''x'', ''y'', ''z'', ''v'']) = 2"
proof -
  have "consume_from_list [''w'', ''x'', ''y'', ''z'', ''v''] ''110''
      = Inr ((''z'', ''11'', 2, 3), ''0'')"
    by (simp add: consume_from_list_def bit_length_of_def ceil_log2.simps int_base2_def
        is_bit_def bit_val_def)
  with code_length_formula [of "[''w'', ''x'', ''y'', ''z'', ''v'']" "''110''"]
  show ?thesis
    by (auto simp: is_bit_def)
qed

text \<open>The claim C6 as stated fails where fewer bits are left than the code length: a list
  of four items has the code length 2, and of the bit stream 1 one bit is consumed.\<close>

theorem code_length_short_tail_counterexample:
  "consume_from_list [''w'', ''x'', ''y'', ''z''] ''1'' = Inr ((''x'', ''1'', 2, 1), [])
   \<and> int (length ''1'') \<noteq> \<lfloor>log 2 (real (length [''w'', ''x'', ''y'', ''z'']))\<rfloor>"
proof -
  have "log 2 (2 ^ 2) = (2::real)" by (subst log_nat_power) auto
  then have "\<lfloor>log 2 (real (length [''w'', ''x'', ''y'', ''z'']))\<rfloor> = 2" by simp
  moreover have "consume_from_list [''w'', ''x'', ''y'', ''z''] ''1''
      = Inr ((''x'', ''1'', 2, 1), [])"
    by (simp add: consume_from_list_def bit_length_of_def ceil_log2.simps int_base2_def
        is_bit_def bit_val_def)
  ultimately show ?thesis by simp
qed

subsection \<open>Candidate lists\<close>

lemma sorted_desc_sorted: "sorted_wrt (\<lambda>a b. snd a \<ge> snd b) (sorted_desc tm)"
proof -
  have "sorted (map (\<lambda>kv. - snd kv) (sorted_desc tm))"
    unfolding sorted_desc_def by (rule sorted_sort_key)
  then show ?thesis
    by (simp add: sorted_map sorted_wrt_iff_nth_less)
qed

text \<open>Claim C7. The encoder and the decoder compute the same candidate list from a model
  and a context; it is the list of the keys of the context's dictionary, sorted by
  descending frequency (a permutation of the items, in descending order), and the items of
  one frequency keep the order that they have in the dictionary.\<close>

theorem canonical_order:
  "dec_get_transitions m g = enc_get_transitions m g
   \<and> enc_get_transitions m (Some gr) =
       (case map_of (chain m) gr of
          None \<Rightarrow> Inl KeyError
        | Some tm \<Rightarrow> Inr (map fst (sorted_desc tm)))
   \<and> sorted_wrt (\<lambda>a b. snd a \<ge> snd b) (sorted_desc tm)
   \<and> mset (sorted_desc tm) = mset tm
   \<and> filter (\<lambda>kv. snd kv = f) (sorted_desc tm) = filter (\<lambda>kv. snd kv = f) tm"
proof -
  have "filter (\<lambda>kv. - snd kv = - f) (sort_key (\<lambda>kv. - snd kv) tm)
      = filter (\<lambda>kv. - snd kv = - f) tm"
    by (rule sort_key_stable)
  then have "filter (\<lambda>kv. snd kv = f) (sorted_desc tm) = filter (\<lambda>kv. snd kv = f) tm"
    by (simp add: sorted_desc_def)
  moreover have "mset (sorted_desc tm) = mset tm"
    by (simp add: sorted_desc_def)
  moreover have "dec_get_transitions m g = enc_get_transitions m g"
    by (simp add: dec_get_transitions_def enc_get_transitions_def)
  moreover note sorted_desc_sorted [of tm]
  ultimately show ?thesis
    by (simp add: enc_get_transitions_def)
qed

theorem canonical_order_witness:
  "enc_get_transitions tie_model (Some [''x'']) = Inr [''b'', ''d'', ''a'', ''c'']
   \<and> dec_get_transitions tie_model (Some [''x'']) = Inr [''b'', ''d'', ''a'', ''c'']"
  using canonical_order [of tie_model "Some [''x'']" "[''x'']" "[]" 0]
  by (simp add: tie_model_def sorted_desc_def)

subsection \<open>Entry points\<close>

text \<open>Claim C2. For the model of the example the claim expects the entry points the and a;
  the code returns a only: the filter on the number of START tokens has removed the key
  (START, START) already, and the slice removes the first entry point.\<close>

theorem entrypoints_k2_drops_first:
  "get_entrypoints k2_model = Inr [''a'']"
  by (simp add: get_entrypoints_def k2_model_def BEGIN_def)

subsection \<open>The empty bit stream\<close>

lemma enc_step_empty:
  assumes "enc_init m [] = Inr s"
  shows "enc_step m rnd s =
           (if length (ee_entrypoints s) = 1 then Inl ZeroDivisionError else Inl ValueError)"
proof -
  from assms obtain eps where s: "s = \<lparr>ee_bitstream = [], ee_bitstream_length = 0,
               ee_entrypoints = eps, ee_current_gram = None, ee_output_tokens = [],
               ee_exhausted = True, ee_finished = False, ee_end_key = 0\<rparr>"
    by (auto simp: enc_init_def split: sum.splits)
  show ?thesis
  proof (cases "eps = []")
    case True
    then show ?thesis
      by (simp add: s enc_step_def enc_choose_entrypoint_def consume_from_list_def)
  next
    case False
    then have n: "1 \<le> length eps" by (simp add: Suc_leI)
    show ?thesis
    proof (cases "length eps = 1")
      case True
      then show ?thesis
        using False
        by (simp add: s enc_step_def enc_choose_entrypoint_def consume_from_list_def
            inject_end_key_def Let_def bit_length_of_zero_iff)
    next
      case neq: False
      with n have "bit_length_of (length eps) \<noteq> 0"
        by (simp add: bit_length_of_zero_iff)
      then show ?thesis
        using False neq
        by (simp add: s enc_step_def enc_choose_entrypoint_def consume_from_list_def
            Let_def int_base2_def)
    qed
  qed
qed

text \<open>Claim C9. With the empty bit stream, encoding ends with an exception for every model
  and every random choice; the first step of a constructed encoder returns no progress
  value: it raises ZeroDivisionError when there is one entry point (the quotient by the
  length 0), and ValueError otherwise (the integer of an empty bit string, or the
  logarithm of 0 when there is no entry point).\<close>

theorem empty_payload_aborts:
  "(\<exists>e. encode m rnd [] = Some (Inl e))
   \<and> (\<forall>s. enc_init m [] = Inr s \<longrightarrow>
          \<not> ee_finished s
          \<and> enc_step m rnd s =
              (if length (ee_entrypoints s) = 1 then Inl ZeroDivisionError
               else Inl ValueError))"
proof -
  have fin: "\<not> ee_finished s" if "enc_init m [] = Inr s" for s
    using that by (auto simp: enc_init_def split: sum.splits)
  have "\<exists>e. encode m rnd [] = Some (Inl e)"
  proof (cases "enc_init m []")
    case (Inl e)
    then show ?thesis by (simp add: encode_def)
  next
    case (Inr s)
    then show ?thesis
      using fin [OF Inr] enc_step_empty [OF Inr, of rnd]
      by (simp add: encode_def enc_generate.simps [of m rnd s])
  qed
  then show ?thesis
    using fin enc_step_empty by blast
qed

theorem empty_payload_aborts_witness:
  "encode one_entry_model 0 [] = Some (Inl ZeroDivisionError)"
proof -
  obtain s where s: "enc_init one_entry_model [] = Inr s" and eps: "ee_entrypoints s = [''hello'']"
    by (simp add: enc_init_def get_entrypoints_def one_entry_model_def)
  have "\<not> ee_finished s" and "enc_step one_entry_model 0 s = Inl ZeroDivisionError"
    using empty_payload_aborts [of one_entry_model 0] s eps by auto
  then show ?thesis
    using s by (simp add: encode_def enc_generate.simps [of one_entry_model 0 s])
qed

subsection \<open>The end key\<close>

text \<open>Claim C5, as amended. The end key \<open>c\<close>, the number of removed bits, is embedded as
  the character \<open>chr (97 + c)\<close> at the end of the token that the random source picks, for
  every \<open>c\<close>: \<open>c = 0\<close> gives the letter a and \<open>c = 25\<close> the letter z, and no value of \<open>c\<close> is
  rejected.\<close>

theorem end_key_embedding:
  assumes "ee_output_tokens s \<noteq> []"
  shows "inject_end_key rnd removed s =
           Inr (s\<lparr>ee_end_key := length removed,
                  ee_output_tokens :=
                    (ee_output_tokens s)[rnd mod length (ee_output_tokens s) :=
                       ee_output_tokens s ! (rnd mod length (ee_output_tokens s))
                         @ [char_of (length removed + 97)]],
                  ee_finished := True\<rparr>)
         \<and> char_of ((0::nat) + 97) = CHR ''a'' \<and> char_of ((25::nat) + 97) = CHR ''z''"
  using assms by (simp add: inject_end_key_def Let_def char_of_def bit_0)

theorem end_key_embedding_witness:
  "inject_end_key 0 ''1'' key_state =
     Inr (key_state\<lparr>ee_end_key := 1, ee_output_tokens := [''theb''], ee_finished := True\<rparr>)"
  using end_key_embedding [of key_state 0 "''1''"]
  by (simp add: key_state_def char_of_def)

text \<open>The claim C5 as stated fails at \<open>c = 26\<close>: the key is embedded as the character after
  z, and the encoder finishes without an error.\<close>

theorem end_key_26_counterexample:
  "inject_end_key 0 (replicate 26 (CHR ''0'')) key_state =
     Inr (key_state\<lparr>ee_end_key := 26, ee_output_tokens := [''the{''], ee_finished := True\<rparr>)"
  by (simp add: inject_end_key_def key_state_def Let_def char_of_def bit_0)

subsection \<open>The terminal step\<close>

lemma dec_step_finished_flag:
  assumes "dec_step m s = Inr (v, s')" and "ed_finished s'"
  shows "ed_finished s \<or> (int (ed_index s') \<ge> int (length (ed_stega_text s')) - 1 \<and> \<not> ed_exhausted s')"
  using assms
  unfolding dec_step_def dec_choose_entrypoint_def dec_choose_next_token_def
  by (auto simp: Let_def split: if_splits sum.splits option.splits prod.splits)

lemma dec_step_at_end:
  assumes "int (ed_index s) \<ge> int (length (ed_stega_text s)) - 1" and "\<not> ed_exhausted s"
    and "ed_finished s"
  shows "dec_step m s = Inr (One, s)"
  using assms by (cases s) (simp add: dec_step_def)

lemma dec_finished_invariant:
  assumes "dec_reachable m s" and "ed_finished s"
  shows "int (ed_index s) \<ge> int (length (ed_stega_text s)) - 1 \<and> \<not> ed_exhausted s"
  using assms
proof (induction rule: dec_reachable.induct)
  case (dec_start stega s)
  then show ?case by (auto simp: dec_init_def split: sum.splits)
next
  case (dec_next s v s')
  show ?case
  proof (cases "ed_finished s")
    case True
    with dec_next.IH have inv: "int (ed_index s) \<ge> int (length (ed_stega_text s)) - 1 \<and> \<not> ed_exhausted s"
      by simp
    with True dec_step_at_end [of s m] dec_next.hyps(2) have "s' = s" by simp
    with inv show ?thesis by simp
  next
    case False
    with dec_step_finished_flag [OF dec_next.hyps(2) dec_next.prems] show ?thesis by simp
  qed
qed

lemma xdec_step_finished_flag:
  assumes "xdec_step m cb s = Inr (v, s')" and "xd_finished s'"
  shows "xd_finished s \<or> (int (xd_index s') \<ge> int (length (xd_stega_text s')) - 1 \<and> \<not> xd_exhausted s')"
  using assms
  unfolding xdec_step_def
  by (auto simp: Let_def split: if_splits sum.splits option.splits prod.splits)

lemma xdec_step_at_end:
  assumes "int (xd_index s) \<ge> int (length (xd_stega_text s)) - 1" and "\<not> xd_exhausted s"
    and "xd_finished s"
  shows "xdec_step m cb s = Inr (NoneVal, s)"
  using assms by (cases s) (simp add: xdec_step_def)

lemma xdec_finished_invariant:
  assumes "xdec_reachable m cb s" and "xd_finished s"
  shows "int (xd_index s) \<ge> int (length (xd_stega_text s)) - 1 \<and> \<not> xd_exhausted s"
  using assms
proof (induction rule: xdec_reachable.induct)
  case (xdec_start stega s)
  then show ?case by (auto simp: xdec_init_def Let_def split: if_splits)
next
  case (xdec_next s v s')
  show ?case
  proof (cases "xd_finished s")
    case True
    with xdec_next.IH have inv: "int (xd_index s) \<ge> int (length (xd_stega_text s)) - 1 \<and> \<not> xd_exhausted s"
      by simp
    with True xdec_step_at_end [of s m cb] xdec_next.hyps(2) have "s' = s" by simp
    with inv show ?thesis by simp
  next
    case False
    with xdec_step_finished_flag [OF xdec_next.hyps(2) xdec_next.prems] show ?thesis by simp
  qed
qed

text \<open>Claim C8. Once \<^verbatim>\<open>finished\<close> is true, a call of \<^verbatim>\<open>step\<close> changes no field of the session
  and returns a constant: 1 in the Enhanced classes, \<^verbatim>\<open>None\<close> in the Existing ones. The
  encoders test the flag first; the decoders have no such test, and in every state that a
  decoder session reaches with the flag set, the test that has set it holds again.\<close>

theorem terminal_step_idempotent:
  "(ee_finished es \<longrightarrow> enc_step m rnd es = Inr (One, es))
   \<and> (xe_finished xs \<longrightarrow> xenc_step m cb rnd xs = Inr (NoneVal, xs))
   \<and> (dec_reachable m ds \<and> ed_finished ds \<longrightarrow> dec_step m ds = Inr (One, ds))
   \<and> (xdec_reachable m cb xds \<and> xd_finished xds \<longrightarrow> xdec_step m cb xds = Inr (NoneVal, xds))"
proof -
  have "dec_step m ds = Inr (One, ds)" if "dec_reachable m ds" and "ed_finished ds"
    using dec_finished_invariant [OF that] that(2) by (simp add: dec_step_at_end)
  moreover have "xdec_step m cb xds = Inr (NoneVal, xds)"
    if "xdec_reachable m cb xds" and "xd_finished xds"
    using xdec_finished_invariant [OF that] that(2) by (simp add: xdec_step_at_end)
  ultimately show ?thesis
    by (simp add: enc_step_def xenc_step_def)
qed

lemma dec_done_reachable: "dec_reachable demo_model dec_done"
proof -
  define s0 where "s0 = \<lparr>ed_stega_text = [''a'', ''dogb''], ed_entrypoints = [''a''],
     ed_output = [], ed_endkey = 0, ed_current_gram = None,
     ed_exhausted = True, ed_finished = False, ed_index = 0\<rparr>"
  define s1 where "s1 = s0\<lparr>ed_output := ''0'', ed_current_gram := Some [BEGIN, ''a''],
     ed_exhausted := False\<rparr>"
  define s2 where "s2 = s1\<lparr>ed_output := ''01'', ed_endkey := 1,
     ed_current_gram := Some [''a'', ''dog''], ed_index := 1\<rparr>"
  have "dec_init demo_model ''a dogb'' = Inr s0"
    by (simp add: dec_init_def get_entrypoints_def demo_model_def s0_def string_defs)
  then have r0: "dec_reachable demo_model s0" by (rule dec_start)
  have "dec_step demo_model s0 = Inr (Frac 0 2, s1)"
    by (simp add: dec_step_def dec_choose_entrypoint_def bit_length_of_def ceil_log2.simps
        bin_digits.simps zfill_def entry_gram_def demo_model_def s0_def s1_def Let_def)
  with r0 have r1: "dec_reachable demo_model s1" by (rule dec_next)
  have "dec_step demo_model s1 = Inr (Frac 1 2, s2)"
    by (simp add: dec_step_def dec_choose_next_token_def dec_get_transitions_def
        sorted_desc_def dec_bit_length_of_def ceil_log2.simps bin_digits.simps zfill_def
        demo_model_def s0_def s1_def s2_def Let_def string_defs)
  with r1 have r2: "dec_reachable demo_model s2" by (rule dec_next)
  have "dec_step demo_model s2 = Inr (One, dec_done)"
    by (simp add: dec_step_def s0_def s1_def s2_def dec_done_def)
  with r2 show ?thesis by (rule dec_next)
qed

lemma xdec_done_reachable: "xdec_reachable demo_model example_codebook xdec_done"
proof -
  define s0 where "s0 = \<lparr>xd_stega_text = [''a'', ''dog''], xd_entrypoints = [''the'', ''a''],
     xd_endkey = 0, xd_current_gram = None, xd_index = 0,
     xd_exhausted = True, xd_finished = False, xd_output = []\<rparr>"
  define s1 where "s1 = s0\<lparr>xd_current_gram := Some [BEGIN, ''a''], xd_exhausted := False\<rparr>"
  define s2 where "s2 = s1\<lparr>xd_current_gram := Some [''a'', ''dog''], xd_index := 1,
     xd_output := ''1''\<rparr>"
  have "xdec_init demo_model ''a dog'' = Inr s0"
    by (simp add: xdec_init_def demo_model_def s0_def string_defs)
  then have r0: "xdec_reachable demo_model example_codebook s0" by (rule xdec_start)
  have "xdec_step demo_model example_codebook s0 = Inr (Frac 0 2, s1)"
    by (simp add: xdec_step_def s0_def s1_def)
  with r0 have r1: "xdec_reachable demo_model example_codebook s1" by (rule xdec_next)
  have "xdec_step demo_model example_codebook s1 = Inr (Frac 1 2, s2)"
    by (simp add: xdec_step_def get_transition_matrix_def tree_depth_of_def ends_sentence_def
        is_literal_def example_codebook_def demo_model_def s0_def s1_def s2_def Let_def
        string_defs)
  with r1 have r2: "xdec_reachable demo_model example_codebook s2" by (rule xdec_next)
  have "xdec_step demo_model example_codebook s2 = Inr (NoneVal, xdec_done)"
    by (simp add: xdec_step_def s0_def s1_def s2_def xdec_done_def)
  with r2 show ?thesis by (rule xdec_next)
qed

theorem terminal_step_idempotent_witness:
  "enc_step demo_model 0 enc_done = Inr (One, enc_done)
   \<and> xenc_step demo_model example_codebook 0 xenc_done = Inr (NoneVal, xenc_done)
   \<and> dec_step demo_model dec_done = Inr (One, dec_done)
   \<and> xdec_step demo_model example_codebook xdec_done = Inr (NoneVal, xdec_done)"
  using terminal_step_idempotent [of enc_done demo_model 0 xenc_done example_codebook
      dec_done xdec_done] dec_done_reachable xdec_done_reachable
  by (simp add: enc_done_def xenc_done_def dec_done_def xdec_done_def)

subsection \<open>Literal tokens in the Existing decoder\<close>







subsection \<open>Sentence punctuation in the Existing decoder\<close>

text \<open>Claim C4, as amended. In a step of the Existing decoder in which the last token of
  the context ends in one of . ? ! and END is a valid transition: with at most one
  candidate the chain is ended (the flag \<^verbatim>\<open>exhausted\<close> is set and END is taken) whatever
  the next token is; with more candidates the chain is ended only when the next token is
  no valid transition, and a next token that is a valid transition is taken as it is.\<close>

theorem punctuation_forced_termination:
  assumes "\<not> xd_exhausted s"
    and "Suc (xd_index s) < length (xd_stega_text s)"
    and "xd_current_gram s = Some gr"
    and "map_of (chain m) gr = Some tm"
    and "ends_sentence gr = Inr True"
    and "END \<in> fst ` set tm"
  shows "(length tm \<le> 1 \<longrightarrow>
            xdec_step m cb s =
              Inr (Frac (int (xd_index s) + 1) (int (length (xd_stega_text s))),
                   s\<lparr>xd_exhausted := True, xd_current_gram := Some (tl (gr @ [END])),
                     xd_index := xd_index s + 1\<rparr>))
       \<and> (length tm > 1 \<and> xd_stega_text s ! Suc (xd_index s) \<notin> fst ` set tm
            \<and> cb tm \<noteq> [] \<and> map_of (cb tm) END = Some code \<longrightarrow>
            xdec_step m cb s =
              Inr (Frac (int (xd_index s) + 1) (int (length (xd_stega_text s))),
                   s\<lparr>xd_exhausted := True, xd_current_gram := Some (tl (gr @ [END])),
                     xd_index := xd_index s + 1, xd_output := xd_output s @ code\<rparr>))
       \<and> (length tm > 1 \<and> xd_stega_text s ! Suc (xd_index s) \<in> fst ` set tm
            \<and> cb tm \<noteq> [] \<and> \<not> is_literal (xd_stega_text s ! Suc (xd_index s))
            \<and> map_of (cb tm) (xd_stega_text s ! Suc (xd_index s)) = Some code \<longrightarrow>
            xdec_step m cb s =
              Inr (Frac (int (xd_index s) + 1) (int (length (xd_stega_text s))),
                   s\<lparr>xd_current_gram :=
                       Some (tl (gr @ [xd_stega_text s ! Suc (xd_index s)])),
                     xd_index := xd_index s + 1, xd_output := xd_output s @ code\<rparr>))"
proof -
  have lit: "\<not> is_literal END"
    by (simp add: is_literal_def END_def)
  show ?thesis
    using assms lit
    by (cases s) (auto simp: xdec_step_def get_transition_matrix_def tree_depth_of_def Let_def)
qed

theorem punctuation_forced_termination_witness:
  "xdec_step stop_model example_codebook stop_state =
     Inr (Frac 1 2, stop_state\<lparr>xd_exhausted := True,
            xd_current_gram := Some [''end.'', END], xd_index := 1\<rparr>)
   \<and> xdec_step punct_model example_codebook punct_state2 =
     Inr (Frac 1 2, punct_state2\<lparr>xd_exhausted := True,
            xd_current_gram := Some [''hi.'', END], xd_index := 1, xd_output := ''0''\<rparr>)
   \<and> xdec_step punct_model example_codebook punct_state =
     Inr (Frac 1 2, punct_state\<lparr>xd_current_gram := Some [''hi.'', ''there''],
            xd_index := 1, xd_output := ''1''\<rparr>)"
  using punctuation_forced_termination [of stop_state "[BEGIN, ''end.'']" stop_model
      "[(END, 1)]" example_codebook "[]"]
    punctuation_forced_termination [of punct_state2 "[BEGIN, ''hi.'']" punct_model
      "[(END, 1), (''there'', 1)]" example_codebook "''0''"]
    punctuation_forced_termination [of punct_state "[BEGIN, ''hi.'']" punct_model
      "[(END, 1), (''there'', 1)]" example_codebook "''1''"]
  by (simp add: stop_state_def stop_model_def punct_state2_def punct_state_def
      punct_model_def example_codebook_def ends_sentence_def is_literal_def string_defs)

text \<open>The claim C4 as stated fails where the next token is a valid transition: after
  hi. with the transitions END and there, the token there is taken and the chain goes
  on.\<close>

theorem punctuation_not_forced_counterexample:
  "xd_current_gram punct_state = Some [BEGIN, ''hi.'']
   \<and> ends_sentence [BEGIN, ''hi.''] = Inr True
   \<and> get_transition_matrix punct_model (Some [BEGIN, ''hi.'']) = Inr [(END, 1), (''there'', 1)]
   \<and> xdec_step punct_model example_codebook punct_state =
       Inr (Frac 1 2, punct_state\<lparr>xd_current_gram := Some [''hi.'', ''there''],
              xd_index := 1, xd_output := ''1''\<rparr>)
   \<and> \<not> xd_exhausted (punct_state\<lparr>xd_current_gram := Some [''hi.'', ''there''],
              xd_index := 1, xd_output := ''1''\<rparr>)"
  by (simp add: xdec_step_def get_transition_matrix_def tree_depth_of_def ends_sentence_def
      is_literal_def example_codebook_def punct_model_def punct_state_def Let_def string_defs)

subsection \<open>Entry contexts of the Existing classes\<close>

lemma xenc_init_entrypoints:
  assumes "g \<in> set (xe_entrypoints (xenc_init m bits))"
  shows "BEGIN \<in> set g \<and> g \<in> fst ` set (chain m)"
proof -
  from assms have "g \<in> set (tl (filter (\<lambda>key. BEGIN \<in> set key) (map fst (chain m))))"
    by (simp add: xenc_init_def)
  then have "g \<in> set (filter (\<lambda>key. BEGIN \<in> set key) (map fst (chain m)))"
    by (cases "filter (\<lambda>key. BEGIN \<in> set key) (map fst (chain m))") auto
  then show ?thesis by auto
qed

text \<open>Claim C10, as amended. The Existing decoder builds its entry context as the pair of
  START and the entry token, whatever the state size; in a model whose keys all have the
  length \<open>state_size \<noteq> 2\<close> the lookup of such a context raises KeyError. The Existing
  encoder takes as its entry context a whole key of the model that holds START and emits
  element 1 of it. When the keys have \<open>state_size \<ge> 2\<close> tokens and there is an entry point,
  its entry step (on a payload that is not empty) succeeds and the lookup of its entry
  context succeeds, also for a state size other than 2; when the keys have fewer than two
  tokens (state size 1), its entry step raises IndexError. The Enhanced classes build an entry context of \<open>state_size\<close>
  tokens. On a model with the key (START) alone, as the models of state size 1 have it,
  the Existing decoder cannot be constructed: reading element 1 of that key raises
  IndexError.\<close>

theorem existing_entry_context:
  "(xd_exhausted ds \<and> xd_index ds < length (xd_stega_text ds) \<longrightarrow>
      xdec_step m cb ds =
        Inr (Frac (int (xd_index ds)) (int (length (xd_stega_text ds))),
             ds\<lparr>xd_current_gram := Some [BEGIN, xd_stega_text ds ! xd_index ds],
                xd_exhausted := False\<rparr>))
   \<and> ((\<forall>key \<in> fst ` set (chain m). length key = state_size m) \<and> state_size m \<noteq> 2
        \<and> \<not> xd_exhausted ds \<and> Suc (xd_index ds) < length (xd_stega_text ds)
        \<and> xd_current_gram ds = Some [BEGIN, t] \<longrightarrow>
      xdec_step m cb ds = Inl KeyError)
   \<and> ((\<forall>key \<in> fst ` set (chain m). length key = state_size m) \<and> 2 \<le> state_size m
        \<and> xe_exhausted es \<and> \<not> xe_finished es
        \<and> xe_entrypoints es = xe_entrypoints (xenc_init m bits)
        \<and> xe_entrypoints es \<noteq> [] \<and> xe_bitstream_length es \<noteq> 0 \<longrightarrow>
      (\<exists>g tm. g = xe_entrypoints es ! (rnd mod length (xe_entrypoints es))
         \<and> xenc_step m cb rnd es =
             Inr (Frac (int (xe_bitstream_length es) - int (length (xe_bitstream es)))
                    (int (xe_bitstream_length es)),
                  es\<lparr>xe_exhausted := False, xe_current_gram := Some g,
                     xe_output_tokens := xe_output_tokens es @ [g ! 1],
                     xe_finished := (xe_bitstream es = [])\<rparr>)
         \<and> BEGIN \<in> set g \<and> length g = state_size m
         \<and> get_transition_matrix m (Some g) = Inr tm))
   \<and> ((\<forall>key \<in> fst ` set (chain m). length key = state_size m) \<and> state_size m < 2
        \<and> xe_exhausted es \<and> \<not> xe_finished es
        \<and> xe_entrypoints es = xe_entrypoints (xenc_init m bits) \<longrightarrow>
      xenc_step m cb rnd es = Inl IndexError)
   \<and> (1 \<le> state_size m \<longrightarrow> length (entry_gram m t) = state_size m)
   \<and> ([BEGIN] \<in> fst ` set (chain m) \<longrightarrow> xdec_init m stega = Inl IndexError)"
proof -
  have a: "xdec_step m cb ds =
        Inr (Frac (int (xd_index ds)) (int (length (xd_stega_text ds))),
             ds\<lparr>xd_current_gram := Some [BEGIN, xd_stega_text ds ! xd_index ds],
                xd_exhausted := False\<rparr>)"
    if "xd_exhausted ds" and "xd_index ds < length (xd_stega_text ds)"
    using that by (cases ds) (auto simp: xdec_step_def)
  have b: "xdec_step m cb ds = Inl KeyError"
    if "\<forall>key \<in> fst ` set (chain m). length key = state_size m" and "state_size m \<noteq> 2"
      and "\<not> xd_exhausted ds" and "Suc (xd_index ds) < length (xd_stega_text ds)"
      and "xd_current_gram ds = Some [BEGIN, t]"
  proof -
    have "[BEGIN, t] \<notin> fst ` set (chain m)"
      using that(1,2) by fastforce
    then have "map_of (chain m) [BEGIN, t] = None"
      by (simp add: map_of_eq_None_iff)
    with that show ?thesis
      by (auto simp: xdec_step_def get_transition_matrix_def)
  qed
  have c: "\<exists>g tm. g = xe_entrypoints es ! (rnd mod length (xe_entrypoints es))
         \<and> xenc_step m cb rnd es =
             Inr (Frac (int (xe_bitstream_length es) - int (length (xe_bitstream es)))
                    (int (xe_bitstream_length es)),
                  es\<lparr>xe_exhausted := False, xe_current_gram := Some g,
                     xe_output_tokens := xe_output_tokens es @ [g ! 1],
                     xe_finished := (xe_bitstream es = [])\<rparr>)
         \<and> BEGIN \<in> set g \<and> length g = state_size m
         \<and> get_transition_matrix m (Some g) = Inr tm"
    if keys: "\<forall>key \<in> fst ` set (chain m). length key = state_size m"
      and two: "2 \<le> state_size m"
      and "xe_exhausted es" and "\<not> xe_finished es"
      and eps: "xe_entrypoints es = xe_entrypoints (xenc_init m bits)"
      and ne: "xe_entrypoints es \<noteq> []" and len: "xe_bitstream_length es \<noteq> 0"
  proof -
    define g where "g = xe_entrypoints es ! (rnd mod length (xe_entrypoints es))"
    have "g \<in> set (xe_entrypoints es)"
      unfolding g_def using ne by (intro nth_mem) simp
    with eps have beg: "BEGIN \<in> set g" and key: "g \<in> fst ` set (chain m)"
      using xenc_init_entrypoints [of g m bits] by simp_all
    from key keys have lg: "length g = state_size m" by blast
    from key obtain tm where tm: "map_of (chain m) g = Some tm"
      by (cases "map_of (chain m) g") (auto simp: map_of_eq_None_iff)
    have "xenc_step m cb rnd es =
             Inr (Frac (int (xe_bitstream_length es) - int (length (xe_bitstream es)))
                    (int (xe_bitstream_length es)),
                  es\<lparr>xe_exhausted := False, xe_current_gram := Some g,
                     xe_output_tokens := xe_output_tokens es @ [g ! 1],
                     xe_finished := (xe_bitstream es = [])\<rparr>)"
      using that(3,4) ne len lg two g_def [symmetric]
      by (cases es) (auto simp: xenc_step_def Let_def)
    with beg lg tm show ?thesis
      by (auto simp: get_transition_matrix_def g_def)
  qed
  have c': "xenc_step m cb rnd es = Inl IndexError"
    if keys: "\<forall>key \<in> fst ` set (chain m). length key = state_size m"
      and one: "state_size m < 2"
      and "xe_exhausted es" and "\<not> xe_finished es"
      and eps: "xe_entrypoints es = xe_entrypoints (xenc_init m bits)"
  proof (cases "xe_entrypoints es = []")
    case True
    with that(3,4) show ?thesis
      by (simp add: xenc_step_def)
  next
    case False
    define g where "g = xe_entrypoints es ! (rnd mod length (xe_entrypoints es))"
    have "g \<in> set (xe_entrypoints es)"
      unfolding g_def using False by (intro nth_mem) simp
    with eps have "g \<in> fst ` set (chain m)"
      using xenc_init_entrypoints [of g m bits] by simp
    with keys one have "length g < 2" by auto
    with that(3,4) False show ?thesis
      by (simp add: xenc_step_def Let_def g_def [symmetric])
  qed
  have d: "length (entry_gram m t) = state_size m" if "1 \<le> state_size m"
    using that by (simp add: entry_gram_def)
  have e: "xdec_init m stega = Inl IndexError" if "[BEGIN] \<in> fst ` set (chain m)"
  proof -
    from that have "\<exists>key \<in> set (filter (\<lambda>key. BEGIN \<in> set key) (map fst (chain m))).
        length key < 2"
      by (intro bexI [of _ "[BEGIN]"]) auto
    then show ?thesis
      by (simp add: xdec_init_def Let_def)
  qed
  from a b c c' d e show ?thesis by blast
qed

theorem existing_entry_context_witness:
  "xdec_init k3_model ''the cat'' = Inr k3_dec_entry
   \<and> xdec_step k3_model example_codebook k3_dec_entry =
       Inr (Frac 0 2, k3_dec_entry\<lparr>xd_current_gram := Some [BEGIN, ''the''],
              xd_exhausted := False\<rparr>)
   \<and> xdec_step k3_model example_codebook
        (k3_dec_entry\<lparr>xd_current_gram := Some [BEGIN, ''the''], xd_exhausted := False\<rparr>)
       = Inl KeyError
   \<and> xenc_step k3_model example_codebook 0 (xenc_init k3_model ''1'')
       = Inr (Frac 0 1, k3_enc_entry)
   \<and> (\<exists>tm. get_transition_matrix k3_model (xe_current_gram k3_enc_entry) = Inr tm)
   \<and> xenc_step one_entry_model example_codebook 0 (xenc_init one_entry_model ''1'')
       = Inl IndexError
   \<and> length (entry_gram k3_model ''the'') = 3
   \<and> xdec_init one_entry_model ''hello'' = Inl IndexError"
proof -
  have init: "xdec_init k3_model ''the cat'' = Inr k3_dec_entry"
    by (simp add: xdec_init_def k3_model_def k3_dec_entry_def string_defs)
  have keys: "\<forall>key \<in> fst ` set (chain k3_model). length key = state_size k3_model"
    by (simp add: k3_model_def)
  have keys1: "\<forall>key \<in> fst ` set (chain one_entry_model).
      length key = state_size one_entry_model"
    by (simp add: one_entry_model_def)
  have eps: "xe_entrypoints (xenc_init k3_model ''1'')
      = [[BEGIN, BEGIN, ''the''], [BEGIN, ''the'', ''cat'']]"
    by (simp add: xenc_init_def k3_model_def string_defs)
  from existing_entry_context [of k3_dec_entry k3_model example_codebook "''the''"
      "xenc_init k3_model ''1''" "''1''" 0]
  have 1: "xdec_step k3_model example_codebook k3_dec_entry =
       Inr (Frac 0 2, k3_dec_entry\<lparr>xd_current_gram := Some [BEGIN, ''the''],
              xd_exhausted := False\<rparr>)"
    and 4: "length (entry_gram k3_model ''the'') = 3"
    by (simp_all add: k3_dec_entry_def k3_model_def)
  from existing_entry_context [of "k3_dec_entry\<lparr>xd_current_gram := Some [BEGIN, ''the''],
      xd_exhausted := False\<rparr>" k3_model example_codebook "''the''"
      "xenc_init k3_model ''1''" "''1''" 0] keys
  have 2: "xdec_step k3_model example_codebook
        (k3_dec_entry\<lparr>xd_current_gram := Some [BEGIN, ''the''], xd_exhausted := False\<rparr>)
       = Inl KeyError"
    by (simp add: k3_dec_entry_def k3_model_def)
  from existing_entry_context [of k3_dec_entry k3_model example_codebook "''the''"
      "xenc_init k3_model ''1''" "''1''" 0] keys eps
  have 3: "xenc_step k3_model example_codebook 0 (xenc_init k3_model ''1'')
       = Inr (Frac 0 1, k3_enc_entry)
     \<and> (\<exists>tm. get_transition_matrix k3_model (xe_current_gram k3_enc_entry) = Inr tm)"
    by (auto simp: xenc_init_def k3_model_def k3_enc_entry_def)
  from existing_entry_context [of k3_dec_entry one_entry_model example_codebook "''the''"
      "xenc_init one_entry_model ''1''" "''1''" 0] keys1
  have 6: "xenc_step one_entry_model example_codebook 0 (xenc_init one_entry_model ''1'')
       = Inl IndexError"
    by (simp add: xenc_init_def one_entry_model_def)
  from existing_entry_context [of _ one_entry_model _ _ _ _ _ "''hello''"]
  have 5: "xdec_init one_entry_model ''hello'' = Inl IndexError"
    by (simp add: one_entry_model_def)
  from init 1 2 3 6 4 5 show ?thesis by simp
qed

text \<open>The claim C10 as stated fails for the Existing encoder on a model of state size 3:
  its entry context is a key of three tokens, and the lookup of that context succeeds.\<close>

theorem existing_encoder_k3_counterexample:
  "state_size k3_model = 3
   \<and> xenc_step k3_model example_codebook 0 (xenc_init k3_model ''1'')
       = Inr (Frac 0 1, k3_enc_entry)
   \<and> xe_current_gram k3_enc_entry = Some [BEGIN, BEGIN, ''the'']
   \<and> xenc_step k3_model example_codebook 0 k3_enc_entry
       = Inr (Frac 0 1, k3_enc_entry\<lparr>xe_current_gram := Some [BEGIN, ''the'', ''cat''],
               xe_output_tokens := [BEGIN, ''cat'']\<rparr>)"
  by (simp add: xenc_step_def xenc_init_def get_transition_matrix_def k3_model_def
      k3_enc_entry_def Let_def string_defs)

subsection \<open>The round trip of the Enhanced classes\<close>

lemma index_of_nth:
  assumes "distinct (take n l)" and "i < n" and "i < length l"
  shows "index_of l (l ! i) = Inr i"
  using assms
proof (induction l arbitrary: i n)
  case Nil
  then show ?case by simp
next
  case (Cons y ys)
  from Cons.prems(2) obtain n' where n: "n = Suc n'" by (cases n) auto
  show ?case
  proof (cases i)
    case 0
    then show ?thesis by simp
  next
    case (Suc k)
    with Cons.prems n have k: "k < n'" "k < length ys" and d: "distinct (take n' ys)"
      and y: "y \<notin> set (take n' ys)"
      by auto
    from k have "k < length (take n' ys)" by simp
    then have "take n' ys ! k \<in> set (take n' ys)" by (rule nth_mem)
    with k have "ys ! k \<in> set (take n' ys)" by simp
    with y have "y \<noteq> ys ! k" by auto
    with Suc Cons.IH [OF d k] show ?thesis by simp
  qed
qed

lemma bits_val_zero_replicate:
  assumes "list_all is_bit s" and "bits_val s = 0"
  shows "s = replicate (length s) (CHR ''0'')"
  using assms
proof (induction s rule: rev_induct)
  case Nil
  show ?case by simp
next
  case (snoc c s)
  from snoc.prems have z: "bits_val s = 0" and b: "bit_val c = 0" and c: "is_bit c"
    and s: "list_all is_bit s"
    by (simp_all add: bits_val_snoc)
  from b c have "c = CHR ''0''"
    by (auto simp: bit_val_def is_bit_def split: if_splits)
  moreover from snoc.IH [OF s z] have "s = replicate (length s) (CHR ''0'')" .
  ultimately show ?case
    by (metis length_append_singleton replicate_Suc replicate_append_same)
qed

lemma bin_digits_bits_val:
  assumes "s \<noteq> []" and "list_all is_bit s"
  shows "length (bin_digits (bits_val s)) \<le> length s
         \<and> replicate (length s - length (bin_digits (bits_val s))) (CHR ''0'')
             @ bin_digits (bits_val s) = s"
  using assms
proof (induction s rule: rev_induct)
  case Nil
  then show ?case by simp
next
  case (snoc c s)
  from snoc.prems have c: "is_bit c" and s: "list_all is_bit s" by simp_all
  have cdig: "(if bit_val c = 1 then CHR ''1'' else CHR ''0'') = c"
    using c by (auto simp: is_bit_def bit_val_def)
  have bv: "bit_val c < 2" by (simp add: bit_val_def)
  show ?case
  proof (cases "bits_val s = 0")
    case True
    then have v: "bits_val (s @ [c]) = bit_val c" by (simp add: bits_val_snoc)
    have bd: "bin_digits (bit_val c) = [c]"
      using bv cdig by (subst bin_digits.simps) simp
    have "s = replicate (length s) (CHR ''0'')"
      using s True by (rule bits_val_zero_replicate)
    then show ?thesis
      by (simp add: v bd) 
  next
    case False
    then have ne: "s \<noteq> []" by (auto simp: bits_val_def)
    have ge: "\<not> 2 * bits_val s + bit_val c < 2" using False by simp
    have dv: "(2 * bits_val s + bit_val c) div 2 = bits_val s"
      and md: "(2 * bits_val s + bit_val c) mod 2 = bit_val c"
      using bv by simp_all
    have bd: "bin_digits (bits_val (s @ [c])) = bin_digits (bits_val s) @ [c]"
      unfolding bits_val_snoc
      by (subst bin_digits.simps) (simp only: ge dv md cdig if_False)
    from snoc.IH [OF ne s] show ?thesis
      by (simp add: bd Suc_diff_le)
  qed
qed

lemma zfill_bin_digits:
  assumes "s \<noteq> []" and "list_all is_bit s"
  shows "zfill (bin_digits (bits_val s)) (int (length s)) = s"
  using bin_digits_bits_val [OF assms]
  by (simp add: zfill_def nat_diff_distrib')

lemma split_sp_append:
  assumes "CHR '' '' \<notin> set t"
  shows "split_sp (t @ CHR '' '' # cs) = t # split_sp cs"
  using assms by (induction t) auto

lemma split_sp_token:
  assumes "CHR '' '' \<notin> set t"
  shows "split_sp t = [t]"
  using assms by (induction t) auto

lemma split_join:
  assumes "ts \<noteq> []" and "\<forall>t \<in> set ts. CHR '' '' \<notin> set t"
  shows "split_sp (join_sp ts) = ts"
  using assms
proof (induction ts rule: join_sp.induct)
  case 1
  then show ?case by simp
next
  case (2 t)
  then show ?case by (simp add: split_sp_token)
next
  case (3 t u ts)
  then show ?case by (simp add: split_sp_append)
qed

lemma bit_length_of_pos:
  assumes "2 \<le> n"
  shows "1 \<le> bit_length_of n"
  using assms bit_length_of_zero_iff [of n] by (cases "bit_length_of n") auto

lemma enc_iter_finished:
  "enc_iter m rnd n s = Some (Inr sf) \<Longrightarrow> ee_finished sf"
  by (induction n arbitrary: s) (auto split: if_splits sum.splits)

lemma enc_generate_iter:
  assumes "enc_generate m rnd s = Some r"
  shows "\<exists>n. map_option (map_sum id enc_output) (enc_iter m rnd n s) = Some r"
proof (rule enc_generate.raw_induct
    [where P = "\<lambda>m rnd s r. \<exists>n. map_option (map_sum id enc_output) (enc_iter m rnd n s) = Some r",
      OF _ assms])
  fix gen :: "model \<Rightarrow> nat \<Rightarrow> enc_state \<Rightarrow> (error + string) option"
    and m rnd s r
  assume IH: "\<And>m rnd s r. gen m rnd s = Some r \<Longrightarrow>
      \<exists>n. map_option (map_sum id enc_output) (enc_iter m rnd n s) = Some r"
    and unfold: "(if ee_finished s then Some (Inr (enc_output s))
      else case enc_step m rnd s of Inl e \<Rightarrow> Some (Inl e)
           | Inr (v, s') \<Rightarrow> gen m rnd s') = Some r"
  show "\<exists>n. map_option (map_sum id enc_output) (enc_iter m rnd n s) = Some r"
  proof (cases "ee_finished s")
    case True
    with unfold have "map_option (map_sum id enc_output) (enc_iter m rnd 0 s) = Some r"
      by simp
    then show ?thesis ..
  next
    case False
    show ?thesis
    proof (cases "enc_step m rnd s")
      case (Inl e)
      with False unfold
      have "map_option (map_sum id enc_output) (enc_iter m rnd (Suc 0) s) = Some r"
        by simp
      then show ?thesis ..
    next
      case (Inr p)
      obtain v s' where p: "p = (v, s')" by (cases p)
      with False Inr unfold have "gen m rnd s' = Some r" by simp
      from IH [OF this] obtain n
        where "map_option (map_sum id enc_output) (enc_iter m rnd n s') = Some r" ..
      with False Inr p
      have "map_option (map_sum id enc_output) (enc_iter m rnd (Suc n) s) = Some r"
        by simp
      then show ?thesis ..
    qed
  qed
qed

lemma enc_generate_returns:
  assumes "enc_generate m rnd s = Some (Inr text)"
  shows "\<exists>n sf. enc_iter m rnd n s = Some (Inr sf) \<and> text = enc_output sf"
proof -
  from enc_generate_iter [OF assms] obtain n
    where n: "map_option (map_sum id enc_output) (enc_iter m rnd n s) = Some (Inr text)" ..
  then obtain r where r: "enc_iter m rnd n s = Some r" and "map_sum id enc_output r = Inr text"
    by auto
  then obtain sf where "r = Inr sf" and "text = enc_output sf"
    by (cases r) auto
  with r show ?thesis by blast
qed

lemma consume_sel:
  assumes "lst \<noteq> []" and "bs \<noteq> []" and "list_all is_bit bs"
  shows "consume_from_list lst bs =
           Inr ((lst ! sel_idx lst bs, take (bit_length_of (length lst)) bs,
                 bit_length_of (length lst), sel_idx lst bs),
                drop (bit_length_of (length lst)) bs)"
  using consume_from_list_total [OF assms] by (simp add: sel_idx_def)

lemma sel_idx_less:
  assumes "lst \<noteq> []"
  shows "sel_idx lst bs < length lst"
proof (cases "bit_length_of (length lst) = 0")
  case True
  with assms show ?thesis by (simp add: sel_idx_def)
next
  case False
  define L where "L = bit_length_of (length lst)"
  have "bits_val (take L bs) < 2 ^ length (take L bs)" by (rule bits_val_less)
  also have "\<dots> \<le> 2 ^ L" by simp
  also have "\<dots> \<le> length lst"
    using bit_length_of_bounds [of "length lst"] assms by (simp add: L_def Suc_leI)
  finally show ?thesis using False by (simp add: sel_idx_def L_def)
qed

lemma sel_idx_small: "sel_idx lst bs < 2 ^ bit_length_of (length lst)"
proof (cases "bit_length_of (length lst) = 0")
  case True
  then show ?thesis by (simp add: sel_idx_def)
next
  case False
  define L where "L = bit_length_of (length lst)"
  have "bits_val (take L bs) < 2 ^ length (take L bs)" by (rule bits_val_less)
  also have "\<dots> \<le> 2 ^ L" by simp
  finally show ?thesis using False by (simp add: sel_idx_def L_def)
qed

lemma addressable_nth:
  assumes "idx < 2 ^ bit_length_of (length l)" and "idx < length l"
  shows "l ! idx \<in> set (addressable l)"
proof -
  have "idx < length (addressable l)" using assms by (simp add: addressable_def)
  then have "addressable l ! idx \<in> set (addressable l)" by (rule nth_mem)
  then show ?thesis using assms(1) by (simp add: addressable_def)
qed

lemma sel_idx_addressable:
  assumes "lst \<noteq> []"
  shows "lst ! sel_idx lst bs \<in> set (addressable lst)"
  using sel_idx_small sel_idx_less [OF assms] by (rule addressable_nth)

lemma inject_emit:
  assumes "ee_output_tokens s \<noteq> []" and "ee_bitstream s = []"
  shows "inject_end_key rnd removed s = Inr (enc_emit rnd removed s)"
  using assms by (simp add: inject_end_key_def enc_emit_def Let_def)

lemma enc_step_entry:
  assumes "ee_exhausted s" and "\<not> ee_finished s"
    and "ee_bitstream s \<noteq> []" and "list_all is_bit (ee_bitstream s)"
    and "enc_step m rnd s = Inr (v, s')"
  shows "ee_entrypoints s \<noteq> []
         \<and> s' = enc_emit rnd (take (bit_length_of (length (ee_entrypoints s))) (ee_bitstream s))
              (s\<lparr>ee_exhausted := False,
                 ee_bitstream := drop (bit_length_of (length (ee_entrypoints s))) (ee_bitstream s),
                 ee_current_gram :=
                   Some (entry_gram m (ee_entrypoints s ! sel_idx (ee_entrypoints s) (ee_bitstream s))),
                 ee_output_tokens := ee_output_tokens s
                   @ [ee_entrypoints s ! sel_idx (ee_entrypoints s) (ee_bitstream s)]\<rparr>)"
proof -
  have ne: "ee_entrypoints s \<noteq> []"
    using assms(1,2,5)
    by (auto simp: enc_step_def enc_choose_entrypoint_def consume_from_list_def Let_def)
  show ?thesis
    using assms ne
    by (auto simp: enc_step_def enc_choose_entrypoint_def consume_sel inject_emit Let_def
        enc_emit_def split: if_splits)
qed

lemma enc_step_next:
  assumes "\<not> ee_exhausted s" and "\<not> ee_finished s"
    and "ee_bitstream s \<noteq> []" and "list_all is_bit (ee_bitstream s)"
    and "enc_step m rnd s = Inr (v, s')"
  shows "\<exists>lst gr. enc_get_transitions m (ee_current_gram s) = Inr lst
           \<and> ee_current_gram s = Some gr \<and> lst \<noteq> []
           \<and> (if END \<in> set lst then s' = s\<lparr>ee_exhausted := True\<rparr>
              else s' = enc_emit rnd (take (bit_length_of (length lst)) (ee_bitstream s))
                (s\<lparr>ee_bitstream := drop (bit_length_of (length lst)) (ee_bitstream s),
                   ee_current_gram := Some (tl (gr @ [lst ! sel_idx lst (ee_bitstream s)])),
                   ee_output_tokens := ee_output_tokens s
                     @ [lst ! sel_idx lst (ee_bitstream s)]\<rparr>))"
proof -
  from assms(1,2,5) obtain lst where lst: "enc_get_transitions m (ee_current_gram s) = Inr lst"
    by (auto simp: enc_step_def enc_choose_next_token_def split: sum.splits)
  then obtain gr where gr: "ee_current_gram s = Some gr"
    by (auto simp: enc_get_transitions_def split: option.splits)
  show ?thesis
  proof (cases "END \<in> set lst")
    case True
    with assms(1,2,5) lst gr show ?thesis
      by (auto simp: enc_step_def enc_choose_next_token_def split: if_splits)
  next
    case False
    have ne: "lst \<noteq> []"
      using assms(1,2,5) lst False
      by (auto simp: enc_step_def enc_choose_next_token_def consume_from_list_def Let_def)
    show ?thesis
      using assms lst gr False ne
      by (auto simp: enc_step_def enc_choose_next_token_def consume_sel inject_emit Let_def
          enc_emit_def split: if_splits)
  qed
qed

lemma enc_step_cases:
  assumes "\<not> ee_finished s" and "ee_bitstream s \<noteq> []" and "list_all is_bit (ee_bitstream s)"
    and "enc_step m rnd s = Inr (v, s')"
  obtains (chain_end) lst where "\<not> ee_exhausted s"
      and "enc_get_transitions m (ee_current_gram s) = Inr lst" and "END \<in> set lst"
      and "s' = s\<lparr>ee_exhausted := True\<rparr>"
  | (select) lst g' where "lst \<noteq> []"
      and "(ee_exhausted s \<and> lst = ee_entrypoints s
             \<and> g' = entry_gram m (lst ! sel_idx lst (ee_bitstream s)))
           \<or> (\<not> ee_exhausted s \<and> enc_get_transitions m (ee_current_gram s) = Inr lst
               \<and> END \<notin> set lst
               \<and> (\<exists>gr. ee_current_gram s = Some gr
                     \<and> g' = tl (gr @ [lst ! sel_idx lst (ee_bitstream s)])))"
      and "s' = enc_emit rnd (take (bit_length_of (length lst)) (ee_bitstream s))
              (s\<lparr>ee_exhausted := False,
                 ee_bitstream := drop (bit_length_of (length lst)) (ee_bitstream s),
                 ee_current_gram := Some g',
                 ee_output_tokens := ee_output_tokens s @ [lst ! sel_idx lst (ee_bitstream s)]\<rparr>)"
proof (cases "ee_exhausted s")
  case True
  from enc_step_entry [OF True assms] show ?thesis
    using True by (intro select [of "ee_entrypoints s"]) auto
next
  case False
  then have same: "s\<lparr>ee_exhausted := False\<rparr> = s" by (cases s) simp
  from enc_step_next [OF False assms] obtain lst gr
    where lst: "enc_get_transitions m (ee_current_gram s) = Inr lst"
      and gr: "ee_current_gram s = Some gr" and ne: "lst \<noteq> []"
      and s': "if END \<in> set lst then s' = s\<lparr>ee_exhausted := True\<rparr>
              else s' = enc_emit rnd (take (bit_length_of (length lst)) (ee_bitstream s))
                (s\<lparr>ee_bitstream := drop (bit_length_of (length lst)) (ee_bitstream s),
                   ee_current_gram := Some (tl (gr @ [lst ! sel_idx lst (ee_bitstream s)])),
                   ee_output_tokens := ee_output_tokens s
                     @ [lst ! sel_idx lst (ee_bitstream s)]\<rparr>)"
    by blast
  show ?thesis
  proof (cases "END \<in> set lst")
    case True
    with False lst s' show ?thesis by (intro chain_end [of lst]) auto
  next
    case noend: False
    have eq: "s\<lparr>ee_bitstream := drop (bit_length_of (length lst)) (ee_bitstream s),
             ee_current_gram := Some (tl (gr @ [lst ! sel_idx lst (ee_bitstream s)])),
             ee_output_tokens := ee_output_tokens s @ [lst ! sel_idx lst (ee_bitstream s)]\<rparr>
        = s\<lparr>ee_exhausted := False,
             ee_bitstream := drop (bit_length_of (length lst)) (ee_bitstream s),
             ee_current_gram := Some (tl (gr @ [lst ! sel_idx lst (ee_bitstream s)])),
             ee_output_tokens := ee_output_tokens s @ [lst ! sel_idx lst (ee_bitstream s)]\<rparr>"
      using False by (cases s) simp
    from noend s' have "s' = enc_emit rnd (take (bit_length_of (length lst)) (ee_bitstream s))
                (s\<lparr>ee_bitstream := drop (bit_length_of (length lst)) (ee_bitstream s),
                   ee_current_gram := Some (tl (gr @ [lst ! sel_idx lst (ee_bitstream s)])),
                   ee_output_tokens := ee_output_tokens s
                     @ [lst ! sel_idx lst (ee_bitstream s)]\<rparr>)"
      by simp
    then have "s' = enc_emit rnd (take (bit_length_of (length lst)) (ee_bitstream s))
                (s\<lparr>ee_exhausted := False,
                   ee_bitstream := drop (bit_length_of (length lst)) (ee_bitstream s),
                   ee_current_gram := Some (tl (gr @ [lst ! sel_idx lst (ee_bitstream s)])),
                   ee_output_tokens := ee_output_tokens s
                     @ [lst ! sel_idx lst (ee_bitstream s)]\<rparr>)"
      by (simp only: eq)
    moreover have "(ee_exhausted s \<and> lst = ee_entrypoints s
             \<and> tl (gr @ [lst ! sel_idx lst (ee_bitstream s)])
                 = entry_gram m (lst ! sel_idx lst (ee_bitstream s)))
           \<or> (\<not> ee_exhausted s \<and> enc_get_transitions m (ee_current_gram s) = Inr lst
               \<and> END \<notin> set lst
               \<and> (\<exists>gra. ee_current_gram s = Some gra
                     \<and> tl (gr @ [lst ! sel_idx lst (ee_bitstream s)])
                         = tl (gra @ [lst ! sel_idx lst (ee_bitstream s)])))"
      using False lst noend gr by simp
    ultimately show ?thesis
      using ne by (intro select [of lst "tl (gr @ [lst ! sel_idx lst (ee_bitstream s)])"])
  qed
qed

lemma char_of_marker:
  assumes "c < 159"
  shows "char_of (c + 97) \<noteq> CHR '' ''" and "of_char (char_of (c + 97)) - 97 = int c"
proof -
  have n: "(of_char (char_of (c + 97)) :: nat) = c + 97"
    using assms by simp
  show "char_of (c + 97) \<noteq> CHR '' ''"
  proof
    assume "char_of (c + 97) = CHR '' ''"
    then have "(of_char (char_of (c + 97)) :: nat) = of_char (CHR '' '')" by simp
    with n show False by simp
  qed
  have "(of_char (char_of (c + 97)) :: int) = int (of_char (char_of (c + 97)))"
    by (simp only: of_nat_of_char)
  with n have "(of_char (char_of (c + 97)) :: int) = int (c + 97)"
    by (simp only:)
  then show "of_char (char_of (c + 97)) - 97 = int c" by simp
qed

lemma enc_iter_of_finished:
  assumes "ee_finished s"
  shows "enc_iter m rnd n s = Some (Inr s)"
  using assms by (cases n) simp_all

lemma step_ok_select:
  assumes "step_ok m i c s" and "lst \<noteq> []"
    and "(ee_exhausted s \<and> lst = ee_entrypoints s \<and> P)
         \<or> (\<not> ee_exhausted s \<and> enc_get_transitions m (ee_current_gram s) = Inr lst
             \<and> END \<notin> set lst \<and> Q)"
  shows "CHR '' '' \<notin> set (lst ! sel_idx lst (ee_bitstream s))"
    and "index_of lst (lst ! sel_idx lst (ee_bitstream s)) = Inr (sel_idx lst (ee_bitstream s))"
    and "length (ee_output_tokens s) = i \<longrightarrow>
           lst ! sel_idx lst (ee_bitstream s) @ [char_of (c + 97)] \<notin> set lst"
proof -
  from assms(3) have "step_list m s = Inr lst" and "\<not> (\<not> ee_exhausted s \<and> END \<in> set lst)"
    by (auto simp: step_list_def)
  with assms(1,2)
  have "CHR '' '' \<notin> set (lst ! sel_idx lst (ee_bitstream s))
    \<and> index_of lst (lst ! sel_idx lst (ee_bitstream s)) = Inr (sel_idx lst (ee_bitstream s))
    \<and> (length (ee_output_tokens s) = i \<longrightarrow>
           lst ! sel_idx lst (ee_bitstream s) @ [char_of (c + 97)] \<notin> set lst)"
    by (simp add: step_ok_def Let_def)
  then show "CHR '' '' \<notin> set (lst ! sel_idx lst (ee_bitstream s))"
    and "index_of lst (lst ! sel_idx lst (ee_bitstream s)) = Inr (sel_idx lst (ee_bitstream s))"
    and "length (ee_output_tokens s) = i \<longrightarrow>
           lst ! sel_idx lst (ee_bitstream s) @ [char_of (c + 97)] \<notin> set lst"
    by simp_all
qed

lemma run_ok_finished: "ee_finished s \<Longrightarrow> run_ok m rnd n i c s"
  by (cases n) simp_all

lemma run_ok_step:
  assumes "run_ok m rnd (Suc n) i c s" and "\<not> ee_finished s"
    and "enc_step m rnd s = Inr (v, s')"
  shows "step_ok m i c s" and "run_ok m rnd n i c s'"
  using assms by simp_all

lemma enc_run_facts:
  assumes "ee_end_key sf < 159"
    and "enc_iter m rnd n s = Some (Inr sf)"
    and "\<not> ee_finished s"
    and "ee_bitstream s \<noteq> []"
    and "list_all is_bit (ee_bitstream s)"
    and "\<forall>t \<in> set (ee_output_tokens s). CHR '' '' \<notin> set t"
    and "run_ok m rnd n i c s"
  shows "length (ee_output_tokens s) < length (ee_output_tokens sf)
    \<and> (\<forall>k < length (ee_output_tokens s).
          ee_output_tokens sf ! k
            = mark_token (rnd mod length (ee_output_tokens sf)) (ee_end_key sf) k
                (ee_output_tokens s ! k))
    \<and> 1 \<le> ee_end_key sf
    \<and> (\<forall>t \<in> set (ee_output_tokens sf). CHR '' '' \<notin> set t)"
  using assms(2-)
proof (induction n arbitrary: s)
  case 0
  then show ?case by simp
next
  case (Suc n)
  from Suc.prems(1,2) obtain v s' where step: "enc_step m rnd s = Inr (v, s')"
    and rest: "enc_iter m rnd n s' = Some (Inr sf)"
    by (auto split: sum.splits)
  from run_ok_step [OF Suc.prems(6,2) step]
  have ok: "step_ok m i c s" and ok': "run_ok m rnd n i c s'"
    by simp_all
  from Suc.prems(2,3,4) step show ?case
  proof (cases rule: enc_step_cases)
    case (chain_end lst)
    with Suc.prems have "\<not> ee_finished s'" "ee_bitstream s' \<noteq> []"
      "list_all is_bit (ee_bitstream s')"
      "\<forall>t \<in> set (ee_output_tokens s'). CHR '' '' \<notin> set t"
      by simp_all
    from Suc.IH [OF rest this ok'] chain_end(4) show ?thesis by simp
  next
    case (select lst g')
    define L where "L = bit_length_of (length lst)"
    define tok where "tok = lst ! sel_idx lst (ee_bitstream s)"
    define T where "T = ee_output_tokens s"
    have tok_sp: "CHR '' '' \<notin> set tok"
      unfolding tok_def using ok select(1,2) by (rule step_ok_select(1))
    show ?thesis
    proof (cases "drop L (ee_bitstream s) = []")
      case False
      with select(3) have s': "s' = s\<lparr>ee_exhausted := False,
                 ee_bitstream := drop L (ee_bitstream s),
                 ee_current_gram := Some g',
                 ee_output_tokens := T @ [tok]\<rparr>"
        by (simp add: enc_emit_def L_def tok_def T_def)
      with Suc.prems(1-5) False tok_sp have "\<not> ee_finished s'" "ee_bitstream s' \<noteq> []"
        "list_all is_bit (ee_bitstream s')"
        "\<forall>t \<in> set (ee_output_tokens s'). CHR '' '' \<notin> set t"
        by (auto simp: T_def list_all_iff dest: in_set_dropD)
      from Suc.IH [OF rest this ok'] show ?thesis
        by (auto simp: s' T_def nth_append)
    next
      case True
      with select(3) have s': "s' = s\<lparr>ee_exhausted := False,
                 ee_bitstream := [],
                 ee_current_gram := Some g',
                 ee_output_tokens := (T @ [tok])[rnd mod Suc (length T) :=
                     (T @ [tok]) ! (rnd mod Suc (length T))
                       @ [char_of (length (take L (ee_bitstream s)) + 97)]],
                 ee_end_key := length (take L (ee_bitstream s)),
                 ee_finished := True\<rparr>"
        by (simp add: enc_emit_def L_def tok_def T_def)
      then have "ee_finished s'" by simp
      with rest have sf: "sf = s'" by (simp add: enc_iter_of_finished)
      from True Suc.prems(3) have c1: "1 \<le> length (take L (ee_bitstream s))"
        by (cases "ee_bitstream s") (auto simp: Suc_leI)
      have c3: "length (take L (ee_bitstream s)) < 159"
        using assms(1) by (simp add: sf s')
      have i: "rnd mod Suc (length T) < Suc (length T)" by simp
      have sp: "\<forall>t \<in> set (T @ [tok]). CHR '' '' \<notin> set t"
        using Suc.prems(5) tok_sp by (simp add: T_def)
      have "\<forall>t \<in> set ((T @ [tok])[rnd mod Suc (length T) :=
                     (T @ [tok]) ! (rnd mod Suc (length T))
                       @ [char_of (length (take L (ee_bitstream s)) + 97)]]).
              CHR '' '' \<notin> set t"
      proof
        fix t
        assume "t \<in> set ((T @ [tok])[rnd mod Suc (length T) :=
                     (T @ [tok]) ! (rnd mod Suc (length T))
                       @ [char_of (length (take L (ee_bitstream s)) + 97)]])"
        then have "t \<in> set (T @ [tok]) \<or> t = (T @ [tok]) ! (rnd mod Suc (length T))
                       @ [char_of (length (take L (ee_bitstream s)) + 97)]"
          by (auto dest!: set_update_subset_insert [THEN subsetD])
        moreover have "(T @ [tok]) ! (rnd mod Suc (length T)) \<in> set (T @ [tok])"
          using i by (intro nth_mem) simp
        ultimately show "CHR '' '' \<notin> set t"
          using sp char_of_marker(1) [OF c3] by auto
      qed
      with c1 i show ?thesis
        by (simp add: sf s' T_def mark_token_def nth_list_update nth_append)
    qed
  qed
qed

lemma marked_not_member:
  assumes "marker_safe K l" and "t \<in> set (addressable l)" and "1 \<le> c" and "c \<le> K"
  shows "t @ [char_of (c + 97)] \<notin> set l"
proof -
  from assms(3,4) have "c \<in> set [1..<Suc K]" by auto
  with assms(1,2) show ?thesis
    unfolding marker_safe_def by blast
qed

lemma get_transitions_same: "dec_get_transitions m g = enc_get_transitions m g"
  by (simp add: dec_get_transitions_def enc_get_transitions_def)

lemma read_token:
  assumes "idx < length lst"
    and "j = i \<longrightarrow> lst ! idx @ [char_of (c + 97)] \<notin> set lst"
    and "c < 159"
    and "tokS = mark_token i c j (lst ! idx)"
    and "ek = (if i < j then int c else 0)"
  shows "(if tokS \<notin> set lst then
            (if tokS = [] then Inl IndexError
             else Inr (of_char (last tokS) - 97, butlast tokS))
          else Inr (ek, tokS))
         = Inr ((if i \<le> j then int c else 0), lst ! idx)"
proof (cases "j = i")
  case True
  with assms(2) have "lst ! idx @ [char_of (c + 97)] \<notin> set lst" by simp
  with True assms(3,4) show ?thesis
    by (simp add: mark_token_def char_of_marker(2))
next
  case False
  then have "(i < j) = (i \<le> j)" by auto
  with False assms(1,4,5) show ?thesis
    by (simp add: mark_token_def)
qed

lemma dec_step_entry:
  assumes "ed_exhausted d"
    and "j = ed_index d" and "j < length (ed_stega_text d)"
    and "idx < length (ed_entrypoints d)"
    and "index_of (ed_entrypoints d) (ed_entrypoints d ! idx) = Inr idx"
    and "j = i \<longrightarrow> ed_entrypoints d ! idx @ [char_of (c + 97)] \<notin> set (ed_entrypoints d)"
    and "c < 159"
    and "ed_stega_text d ! j = mark_token i c j (ed_entrypoints d ! idx)"
    and "ed_endkey d = (if i < j then int c else 0)"
  shows "dec_step m d =
     Inr (Frac (int j) (int (length (ed_stega_text d))),
          d\<lparr>ed_exhausted := False,
            ed_endkey := (if i \<le> j then int c else 0),
            ed_current_gram := Some (entry_gram m (ed_entrypoints d ! idx)),
            ed_output := ed_output d @ zfill (bin_digits idx)
               (if Suc j = length (ed_stega_text d) then (if i \<le> j then int c else 0)
                else int (bit_length_of (length (ed_entrypoints d))))\<rparr>)"
proof -
  note ix = assms(5)
  have last: "(int j = int (length (ed_stega_text d)) - 1) = (Suc j = length (ed_stega_text d))"
    and nonempty: "ed_stega_text d \<noteq> []"
    using assms(3) by auto
  note rd = read_token [OF assms(4,6-9)]
  show ?thesis
  proof (cases "ed_stega_text d ! j \<in> set (ed_entrypoints d)")
    case True
    with rd have "ed_stega_text d ! j = ed_entrypoints d ! idx"
      and "ed_endkey d = (if i \<le> j then int c else 0)"
      using assms(9) by (auto split: if_splits)
    with True assms(1,2,3) ix last nonempty show ?thesis
      by (cases d) (simp add: dec_step_def dec_choose_entrypoint_def Let_def)
  next
    case False
    with rd have "ed_stega_text d ! j \<noteq> []"
      and "butlast (ed_stega_text d ! j) = ed_entrypoints d ! idx"
      and "of_char (last (ed_stega_text d ! j)) - 97 = (if i \<le> j then int c else 0)"
      by (auto split: if_splits)
    with False assms(1,2,3) ix last nonempty show ?thesis
      by (cases d) (simp add: dec_step_def dec_choose_entrypoint_def Let_def)
  qed
qed

lemma dec_step_next:
  assumes "\<not> ed_exhausted d"
    and "dec_get_transitions m (ed_current_gram d) = Inr lst"
    and "ed_current_gram d = Some gr"
    and "END \<notin> set lst"
    and "j = Suc (ed_index d)" and "j < length (ed_stega_text d)"
    and "idx < length lst"
    and "index_of lst (lst ! idx) = Inr idx"
    and "j = i \<longrightarrow> lst ! idx @ [char_of (c + 97)] \<notin> set lst"
    and "c < 159"
    and "ed_stega_text d ! j = mark_token i c j (lst ! idx)"
    and "ed_endkey d = (if i < j then int c else 0)"
  shows "dec_step m d =
     Inr (Frac (int j) (int (length (ed_stega_text d))),
          d\<lparr>ed_endkey := (if i \<le> j then int c else 0),
            ed_current_gram := Some (tl (gr @ [lst ! idx])),
            ed_output := ed_output d @
               (if (if Suc j = length (ed_stega_text d) then (if i \<le> j then int c else 0)
                    else int (bit_length_of (length lst))) \<noteq> 0
                then zfill (bin_digits idx)
                  (if Suc j = length (ed_stega_text d) then (if i \<le> j then int c else 0)
                   else int (bit_length_of (length lst)))
                else []),
            ed_index := j\<rparr>)"
proof -
  note ix = assms(8)
  have ne: "length lst \<noteq> 0" using assms(7) by auto
  have nofin: "\<not> int (ed_index d) \<ge> int (length (ed_stega_text d)) - 1"
    and notend: "int (ed_index d) \<noteq> int (length (ed_stega_text d)) - 1"
    and inr: "Suc (ed_index d) < length (ed_stega_text d)"
    and last: "(int (ed_index d) = int (length (ed_stega_text d)) - 2)
                 = (Suc j = length (ed_stega_text d))"
    and nonempty: "ed_stega_text d \<noteq> []"
    using assms(5,6) by auto
  note rd = read_token [OF assms(7,9-12)]
  show ?thesis
  proof (cases "ed_stega_text d ! j \<in> set lst")
    case True
    with rd have "ed_stega_text d ! j = lst ! idx"
      and "ed_endkey d = (if i \<le> j then int c else 0)"
      using assms(12) by (auto split: if_splits)
    with True assms(1-5) ix ne nofin notend inr last nonempty show ?thesis
      by (cases d)
        (simp add: dec_step_def dec_choose_next_token_def Let_def dec_bit_length_of_eq)
  next
    case False
    with rd have "ed_stega_text d ! j \<noteq> []"
      and "butlast (ed_stega_text d ! j) = lst ! idx"
      and "of_char (last (ed_stega_text d ! j)) - 97 = (if i \<le> j then int c else 0)"
      by (auto split: if_splits)
    with False assms(1-5) ix ne nofin notend inr last nonempty show ?thesis
      by (cases d)
        (simp add: dec_step_def dec_choose_next_token_def Let_def dec_bit_length_of_eq)
  qed
qed

lemma dec_step_end:
  assumes "\<not> ed_exhausted d"
    and "dec_get_transitions m (ed_current_gram d) = Inr lst"
    and "END \<in> set lst"
    and "Suc (ed_index d) < length (ed_stega_text d)"
  shows "dec_step m d =
     Inr (Frac (int (Suc (ed_index d))) (int (length (ed_stega_text d))),
          d\<lparr>ed_exhausted := True, ed_current_gram := None,
            ed_index := Suc (ed_index d)\<rparr>)"
proof -
  have ne: "length lst \<noteq> 0" using assms(3) by auto
  have nofin: "\<not> int (ed_index d) \<ge> int (length (ed_stega_text d)) - 1"
    and nonempty: "ed_stega_text d \<noteq> []"
    using assms(4) by auto
  with assms ne show ?thesis
    by (cases d) (simp add: dec_step_def dec_choose_next_token_def Let_def)
qed

lemma dec_step_finish:
  assumes "\<not> ed_exhausted d" and "Suc (ed_index d) = length (ed_stega_text d)"
  shows "dec_step m d = Inr (One, d\<lparr>ed_finished := True\<rparr>)"
  using assms by (auto simp: dec_step_def)

lemma sel_bits:
  assumes "bs \<noteq> []" and "list_all is_bit bs" and "L = bit_length_of (length lst)"
    and "L \<noteq> 0" and "w = length (take L bs)"
  shows "zfill (bin_digits (sel_idx lst bs)) (int w) = take L bs"
proof -
  have ne: "take L bs \<noteq> []" using assms(1,4) by simp
  have bits: "list_all is_bit (take L bs)"
    using assms(2) by (auto simp: list_all_iff dest: in_set_takeD)
  have "sel_idx lst bs = bits_val (take L bs)"
    using assms(3,4) by (simp add: sel_idx_def)
  with zfill_bin_digits [OF ne bits] assms(5) show ?thesis by simp
qed

lemma round_trip_sim:
  assumes "ee_end_key sf < 159" and "2 \<le> length eps"
    and "enc_iter m rnd n e = Some (Inr sf)"
    and "\<not> ee_finished e"
    and "ee_bitstream e \<noteq> []"
    and "list_all is_bit (ee_bitstream e)"
    and "ee_entrypoints e = eps"
    and "\<forall>t \<in> set (ee_output_tokens e). CHR '' '' \<notin> set t"
    and "sim (ee_output_tokens sf) (rnd mod length (ee_output_tokens sf)) (ee_end_key sf) e d"
    and "run_ok m rnd n (rnd mod length (ee_output_tokens sf)) (ee_end_key sf) e"
  shows "dec_solve m d = Inr (ed_output d @ ee_bitstream e)"
  using assms(3-)
proof (induction n arbitrary: e d)
  case 0
  then show ?case by simp
next
  case (Suc n)
  define S where "S = ee_output_tokens sf"
  define i where "i = rnd mod length S"
  define c where "c = ee_end_key sf"
  define T where "T = ee_output_tokens e"
  define bs where "bs = ee_bitstream e"
  note sim = Suc.prems(7) [folded S_def, folded i_def c_def]
  note run = Suc.prems(8) [folded S_def, folded i_def c_def]
  from enc_run_facts [OF assms(1) Suc.prems(1-4,6,8)]
  have TS: "length T < length S" and c1: "1 \<le> c"
    by (simp_all add: S_def T_def c_def)
  have c159: "c < 159" using assms(1) by (simp add: c_def)
  from sim have dfin: "\<not> ed_finished d" and dS: "ed_stega_text d = S"
    and deps: "ed_entrypoints d = eps" and dex: "ed_exhausted d = ee_exhausted e"
    and dkey: "ed_endkey d = (if i < length T then int c else 0)"
    using Suc.prems(5) by (simp_all add: sim_def T_def)
  from Suc.prems(1,2) obtain v e' where step: "enc_step m rnd e = Inr (v, e')"
    and rest: "enc_iter m rnd n e' = Some (Inr sf)"
    by (auto split: sum.splits)
  from run_ok_step [OF run Suc.prems(2) step]
  have ok: "step_ok m i c e" and ok': "run_ok m rnd n i c e'"
    by simp_all
  from ok' have run': "run_ok m rnd n (rnd mod length (ee_output_tokens sf)) (ee_end_key sf) e'"
    by (simp add: S_def i_def c_def)
  from Suc.prems(2,3,4) step show ?case
  proof (cases rule: enc_step_cases)
    case (chain_end lst)
    from sim chain_end(1) have didx: "ed_index d = length T - 1" and Tne: "T \<noteq> []"
      and dgram: "ed_current_gram d = ee_current_gram e"
      by (simp_all add: sim_def T_def)
    define d' where "d' = d\<lparr>ed_exhausted := True, ed_current_gram := None,
            ed_index := Suc (ed_index d)\<rparr>"
    have "Suc (ed_index d) < length (ed_stega_text d)"
      using didx Tne TS dS by (cases T) auto
    with chain_end dex dgram
    have dstep: "dec_step m d = Inr (Frac (int (Suc (ed_index d))) (int (length (ed_stega_text d))), d')"
      unfolding d'_def by (intro dec_step_end [of d m lst]) (simp_all add: get_transitions_same)
    have e'props: "\<not> ee_finished e'" "ee_bitstream e' \<noteq> []"
      "list_all is_bit (ee_bitstream e')" "ee_entrypoints e' = eps"
      "\<forall>t \<in> set (ee_output_tokens e'). CHR '' '' \<notin> set t"
      using chain_end(4) Suc.prems by simp_all
    have "sim S i c e' d'"
      using sim chain_end(1,4) Tne
      by (cases T) (auto simp: sim_def d'_def T_def)
    then have "sim (ee_output_tokens sf) (rnd mod length (ee_output_tokens sf)) (ee_end_key sf) e' d'"
      by (simp add: S_def i_def c_def)
    from Suc.IH [OF rest e'props this run']
    have "dec_solve m d' = Inr (ed_output d @ ee_bitstream e)"
      by (simp add: d'_def chain_end(4))
    with dfin dstep show ?thesis
      by (subst dec_solve.simps) simp
  next
    case (select lst g')
    define L where "L = bit_length_of (length lst)"
    define idx where "idx = sel_idx lst bs"
    define tok where "tok = lst ! idx"
    have idx_less: "idx < length lst"
      unfolding idx_def using select(1) by (rule sel_idx_less)
    from step_ok_select [OF ok select(1,2)]
    have tok_sp: "CHR '' '' \<notin> set tok"
      and ix: "index_of lst (lst ! idx) = Inr idx"
      and nomark: "length T = i \<longrightarrow> lst ! idx @ [char_of (c + 97)] \<notin> set lst"
      by (simp_all add: tok_def idx_def bs_def T_def)
    have bsne: "bs \<noteq> []" and bsbits: "list_all is_bit bs"
      using Suc.prems(3,4) by (simp_all add: bs_def)
    have e'eq: "e' = enc_emit rnd (take L bs)
              (e\<lparr>ee_exhausted := False, ee_bitstream := drop L bs,
                 ee_current_gram := Some g', ee_output_tokens := T @ [tok]\<rparr>)"
      using select(3) by (simp add: L_def idx_def tok_def T_def bs_def)
    \<comment> \<open>the token at position \<open>length T\<close> and the bits that the decoder writes for it\<close>
    have key: "length T < length S \<and> S ! length T = mark_token i c (length T) tok
         \<and> (if Suc (length T) = length S then (if i \<le> length T then int c else 0)
             else int L) = int (length (take L bs))
         \<and> (if drop L bs = [] then e' = sf \<and> Suc (length T) = length S
             else \<not> ee_finished e' \<and> Suc (length T) < length S)"
    proof (cases "drop L bs = []")
      case False
      with e'eq have e': "e' = e\<lparr>ee_exhausted := False, ee_bitstream := drop L bs,
                 ee_current_gram := Some g', ee_output_tokens := T @ [tok]\<rparr>"
        by (simp add: enc_emit_def)
      from e' Suc.prems False tok_sp have e'props: "\<not> ee_finished e'" "ee_bitstream e' \<noteq> []"
        "list_all is_bit (ee_bitstream e')" "ee_entrypoints e' = eps"
        "\<forall>t \<in> set (ee_output_tokens e'). CHR '' '' \<notin> set t"
        by (auto simp: T_def bs_def list_all_iff dest: in_set_dropD)
      from enc_run_facts [OF assms(1) rest e'props(1-3,5) run']
      have "Suc (length T) < length S" and "S ! length T = mark_token i c (length T) tok"
        by (simp_all add: e' S_def i_def c_def)
      moreover from False have "length (take L bs) = L" by simp
      ultimately show ?thesis using False e'props(1) by simp
    next
      case True
      with e'eq have e': "e' = e\<lparr>ee_exhausted := False, ee_bitstream := [],
                 ee_current_gram := Some g',
                 ee_output_tokens := (T @ [tok])[rnd mod Suc (length T) :=
                     (T @ [tok]) ! (rnd mod Suc (length T))
                       @ [char_of (length (take L bs) + 97)]],
                 ee_end_key := length (take L bs), ee_finished := True\<rparr>"
        by (simp add: enc_emit_def)
      then have "ee_finished e'" by simp
      with rest have sf: "sf = e'" by (simp add: enc_iter_of_finished)
      have lenS: "length S = Suc (length T)" by (simp add: S_def sf e')
      have ceq: "c = length (take L bs)" by (simp add: c_def sf e')
      have ieq: "i = rnd mod Suc (length T)" by (simp add: i_def lenS)
      have ile: "i \<le> length T" unfolding ieq by (simp add: less_Suc_eq_le [symmetric])
      have "S ! length T = mark_token i c (length T) tok"
        by (simp add: S_def sf e' mark_token_def nth_list_update ceq ieq nth_append)
      with lenS ceq ile True sf show ?thesis by simp
    qed
    then have jS: "length T < length S"
      and tokS: "S ! length T = mark_token i c (length T) tok"
      and width: "(if Suc (length T) = length S then (if i \<le> length T then int c else 0)
             else int L) = int (length (take L bs))"
      and fin: "if drop L bs = [] then e' = sf \<and> Suc (length T) = length S
             else \<not> ee_finished e' \<and> Suc (length T) < length S"
      by simp_all
    \<comment> \<open>the decoder's step\<close>
    define d' where "d' = d\<lparr>ed_exhausted := False,
            ed_endkey := (if i \<le> length T then int c else 0),
            ed_current_gram := Some g',
            ed_output := ed_output d @ take L bs,
            ed_index := length T\<rparr>"
    have dstep: "dec_step m d = Inr (Frac (int (length T)) (int (length S)), d')"
    proof (cases "ee_exhausted e")
      case True
      with select(2) have lst: "lst = eps" and g': "g' = entry_gram m tok"
        using Suc.prems(5) by (simp_all add: tok_def idx_def bs_def)
      from sim True have didx: "ed_index d = length T"
        by (simp add: sim_def T_def)
      have "L \<noteq> 0"
        using assms(2) bit_length_of_pos [of "length eps"] by (simp add: L_def lst)
      from sel_bits [OF bsne bsbits L_def this refl]
      have z: "zfill (bin_digits idx) (int (length (take L bs))) = take L bs"
        by (simp add: idx_def)
      have same: "d\<lparr>ed_exhausted := False,
            ed_endkey := (if i \<le> length T then int c else 0),
            ed_current_gram := Some g',
            ed_output := ed_output d @ take L bs\<rparr> = d'"
        using didx by (cases d) (simp add: d'_def)
      have deps': "ed_entrypoints d = lst" using deps lst by simp
      have g'': "entry_gram m (lst ! idx) = g'" using g' by (simp add: tok_def)
      have w: "(if Suc (length T) = length S then (if i \<le> length T then int c else 0)
                else int (bit_length_of (length lst))) = int (length (take L bs))"
        using width by (simp only: L_def)
      have "dec_step m d =
        Inr (Frac (int (length T)) (int (length (ed_stega_text d))),
          d\<lparr>ed_exhausted := False,
            ed_endkey := (if i \<le> length T then int c else 0),
            ed_current_gram := Some (entry_gram m (ed_entrypoints d ! idx)),
            ed_output := ed_output d @ zfill (bin_digits idx)
               (if Suc (length T) = length (ed_stega_text d)
                then (if i \<le> length T then int c else 0)
                else int (bit_length_of (length (ed_entrypoints d))))\<rparr>)"
      proof (rule dec_step_entry)
        show "ed_exhausted d" using True dex by simp
        show "length T = ed_index d" using didx by simp
        show "length T < length (ed_stega_text d)" using jS dS by simp
        show "idx < length (ed_entrypoints d)" using idx_less deps' by simp
        show "index_of (ed_entrypoints d) (ed_entrypoints d ! idx) = Inr idx"
          using ix deps' by simp
        show "length T = i \<longrightarrow>
            ed_entrypoints d ! idx @ [char_of (c + 97)] \<notin> set (ed_entrypoints d)"
          using nomark deps' by simp
        show "c < 159" by (rule c159)
        show "ed_stega_text d ! length T = mark_token i c (length T) (ed_entrypoints d ! idx)"
          using tokS dS deps' by (simp add: tok_def)
        show "ed_endkey d = (if i < length T then int c else 0)" by (rule dkey)
      qed
      then show ?thesis
        unfolding dS deps' g'' w z same .
    next
      case False
      with select(2) obtain gr where tr: "enc_get_transitions m (ee_current_gram e) = Inr lst"
        and noend: "END \<notin> set lst" and gr: "ee_current_gram e = Some gr"
        and g': "g' = tl (gr @ [tok])"
        by (auto simp: tok_def idx_def bs_def)
      from sim False have didx: "ed_index d = length T - 1" and Tne: "T \<noteq> []"
        and dgram: "ed_current_gram d = ee_current_gram e"
        by (simp_all add: sim_def T_def)
      then have j: "length T = Suc (ed_index d)" by (cases T) auto
      have z: "(if int (length (take L bs)) \<noteq> 0
                then zfill (bin_digits idx) (int (length (take L bs))) else []) = take L bs"
      proof (cases "L = 0")
        case True
        then show ?thesis by simp
      next
        case L: False
        from sel_bits [OF bsne bsbits L_def L refl] bsne L show ?thesis
          by (simp add: idx_def)
      qed
      have same: "d\<lparr>ed_endkey := (if i \<le> length T then int c else 0),
            ed_current_gram := Some g',
            ed_output := ed_output d @ take L bs,
            ed_index := length T\<rparr> = d'"
        using False dex by (cases d) (simp add: d'_def)
      have g'': "tl (gr @ [lst ! idx]) = g'" using g' by (simp add: tok_def)
      have w: "(if Suc (length T) = length S then (if i \<le> length T then int c else 0)
                else int (bit_length_of (length lst))) = int (length (take L bs))"
        using width by (simp only: L_def)
      have "dec_step m d =
        Inr (Frac (int (length T)) (int (length (ed_stega_text d))),
          d\<lparr>ed_endkey := (if i \<le> length T then int c else 0),
            ed_current_gram := Some (tl (gr @ [lst ! idx])),
            ed_output := ed_output d @
               (if (if Suc (length T) = length (ed_stega_text d)
                    then (if i \<le> length T then int c else 0)
                    else int (bit_length_of (length lst))) \<noteq> 0
                then zfill (bin_digits idx)
                  (if Suc (length T) = length (ed_stega_text d)
                   then (if i \<le> length T then int c else 0)
                   else int (bit_length_of (length lst)))
                else []),
            ed_index := length T\<rparr>)"
      proof (rule dec_step_next)
        show "\<not> ed_exhausted d" using False dex by simp
        show "dec_get_transitions m (ed_current_gram d) = Inr lst"
          using tr dgram by (simp add: get_transitions_same)
        show "ed_current_gram d = Some gr" using gr dgram by simp
        show "END \<notin> set lst" by (rule noend)
        show "length T = Suc (ed_index d)" by (rule j)
        show "length T < length (ed_stega_text d)" using jS dS by simp
        show "idx < length lst" by (rule idx_less)
        show "index_of lst (lst ! idx) = Inr idx" by (rule ix)
        show "length T = i \<longrightarrow> lst ! idx @ [char_of (c + 97)] \<notin> set lst" by (rule nomark)
        show "c < 159" by (rule c159)
        show "ed_stega_text d ! length T = mark_token i c (length T) (lst ! idx)"
          using tokS dS by (simp add: tok_def)
        show "ed_endkey d = (if i < length T then int c else 0)" by (rule dkey)
      qed
      then show ?thesis
        unfolding dS g'' w z same .
    qed
    show ?thesis
    proof (cases "drop L bs = []")
      case True
      with fin have last: "Suc (length T) = length S" by simp
      have "dec_step m d' = Inr (One, d'\<lparr>ed_finished := True\<rparr>)"
        using last dS by (intro dec_step_finish) (simp_all add: d'_def)
      moreover have "\<not> ed_finished d'" using dfin by (simp add: d'_def)
      ultimately have "dec_solve m d' = Inr (ed_output d')"
        by (subst dec_solve.simps, simp, subst dec_solve.simps, simp)
      moreover from True have "take L bs = bs" by simp
      ultimately have "dec_solve m d' = Inr (ed_output d @ bs)"
        by (simp add: d'_def)
      with dfin dstep show ?thesis
        by (subst dec_solve.simps) (simp add: bs_def)
    next
      case False
      with fin have e'fin: "\<not> ee_finished e'" by simp
      from False e'eq have e': "e' = e\<lparr>ee_exhausted := False, ee_bitstream := drop L bs,
                 ee_current_gram := Some g', ee_output_tokens := T @ [tok]\<rparr>"
        by (simp add: enc_emit_def)
      from e' Suc.prems False tok_sp have e'props: "\<not> ee_finished e'" "ee_bitstream e' \<noteq> []"
        "list_all is_bit (ee_bitstream e')" "ee_entrypoints e' = eps"
        "\<forall>t \<in> set (ee_output_tokens e'). CHR '' '' \<notin> set t"
        by (auto simp: T_def bs_def list_all_iff dest: in_set_dropD)
      have "sim S i c e' d'"
        using dS deps dfin Suc.prems(5)
        by (auto simp: sim_def d'_def e')
      then have "sim (ee_output_tokens sf) (rnd mod length (ee_output_tokens sf))
          (ee_end_key sf) e' d'"
        by (simp add: S_def i_def c_def)
      from Suc.IH [OF rest e'props this run']
      have "dec_solve m d' = Inr (ed_output d @ bs)"
        by (simp add: d'_def e')
      with dfin dstep show ?thesis
        by (subst dec_solve.simps) (simp add: bs_def)
    qed
  qed
qed

lemma enc_emit_fields:
  "ee_bitstream (enc_emit rnd removed s) = ee_bitstream s"
  "ee_bitstream_length (enc_emit rnd removed s) = ee_bitstream_length s"
  "ee_entrypoints (enc_emit rnd removed s) = ee_entrypoints s"
  "ee_current_gram (enc_emit rnd removed s) = ee_current_gram s"
  "ee_exhausted (enc_emit rnd removed s) = ee_exhausted s"
  "ee_finished (enc_emit rnd removed s) = (ee_finished s \<or> ee_bitstream s = [])"
  by (simp_all add: enc_emit_def)

lemma cand_closed:
  assumes "closed_under m eps G"
    and "(ee_exhausted s \<and> lst = ee_entrypoints s
             \<and> g' = entry_gram m (lst ! sel_idx lst (ee_bitstream s)))
           \<or> (\<not> ee_exhausted s \<and> enc_get_transitions m (ee_current_gram s) = Inr lst
               \<and> END \<notin> set lst
               \<and> (\<exists>gr. ee_current_gram s = Some gr
                     \<and> g' = tl (gr @ [lst ! sel_idx lst (ee_bitstream s)])))"
    and "ee_entrypoints s = eps"
    and "\<not> ee_exhausted s \<longrightarrow> (\<exists>g. ee_current_gram s = Some g \<and> g \<in> G)"
    and "lst \<noteq> []"
  shows "g' \<in> G"
proof -
  have tok: "lst ! sel_idx lst (ee_bitstream s) \<in> set (addressable lst)"
    using assms(5) by (rule sel_idx_addressable)
  from assms(2) show ?thesis
  proof (elim disjE conjE exE)
    assume "ee_exhausted s" and "lst = ee_entrypoints s"
      and "g' = entry_gram m (lst ! sel_idx lst (ee_bitstream s))"
    with assms(1,3) tok show ?thesis by (simp add: closed_under_def)
  next
    fix gr
    assume nex: "\<not> ee_exhausted s"
      and tr: "enc_get_transitions m (ee_current_gram s) = Inr lst"
      and noend: "END \<notin> set lst" and gr: "ee_current_gram s = Some gr"
      and g': "g' = tl (gr @ [lst ! sel_idx lst (ee_bitstream s)])"
    from assms(4) nex gr have G: "gr \<in> G" by simp
    from tr gr obtain tm where tm: "map_of (chain m) gr = Some tm"
      and l: "lst = map fst (sorted_desc tm)"
      by (auto simp: enc_get_transitions_def split: option.splits)
    from noend l have noend': "END \<notin> fst ` set tm" by (simp add: sorted_desc_def)
    from assms(1) G have "case map_of (chain m) gr of
              None \<Rightarrow> True
            | Some tm \<Rightarrow>
                END \<in> fst ` set tm
                \<or> (\<forall>t \<in> set (addressable (map fst (sorted_desc tm))).
                      tl (gr @ [t]) \<in> G)"
      by (simp add: closed_under_def)
    with tm noend' l have "\<forall>t \<in> set (addressable lst). tl (gr @ [t]) \<in> G"
      by simp
    with tok g' show ?thesis by simp
  qed
qed

lemma cand_safe:
  assumes "run_safe m eps K G"
    and "(ee_exhausted s \<and> lst = ee_entrypoints s \<and> P)
         \<or> (\<not> ee_exhausted s \<and> enc_get_transitions m (ee_current_gram s) = Inr lst
             \<and> END \<notin> set lst \<and> Q)"
    and "ee_entrypoints s = eps"
    and "\<not> ee_exhausted s \<longrightarrow> (\<exists>g. ee_current_gram s = Some g \<and> g \<in> G)"
  shows "marker_safe K lst"
proof -
  from assms(2) show ?thesis
  proof (elim disjE conjE)
    assume "ee_exhausted s" and "lst = ee_entrypoints s"
    with assms(1,3) show ?thesis by (simp add: run_safe_def)
  next
    assume nex: "\<not> ee_exhausted s"
      and tr: "enc_get_transitions m (ee_current_gram s) = Inr lst"
      and noend: "END \<notin> set lst"
    from assms(4) nex obtain gr where gr: "ee_current_gram s = Some gr" and G: "gr \<in> G"
      by auto
    from tr gr obtain tm where tm: "map_of (chain m) gr = Some tm"
      and l: "lst = map fst (sorted_desc tm)"
      by (auto simp: enc_get_transitions_def split: option.splits)
    from noend l have noend': "END \<notin> fst ` set tm" by (simp add: sorted_desc_def)
    from assms(1) G have "case map_of (chain m) gr of
              None \<Rightarrow> True
            | Some tm \<Rightarrow>
                END \<in> fst ` set tm \<or> marker_safe K (map fst (sorted_desc tm))"
      by (simp add: run_safe_def)
    with tm noend' l show ?thesis by simp
  qed
qed

lemma marker_safe_step:
  assumes "marker_safe K lst" and "lst \<noteq> []" and "1 \<le> c" and "c \<le> K"
  shows "CHR '' '' \<notin> set (lst ! sel_idx lst bs)"
    and "index_of lst (lst ! sel_idx lst bs) = Inr (sel_idx lst bs)"
    and "lst ! sel_idx lst bs @ [char_of (c + 97)] \<notin> set lst"
proof -
  have tok: "lst ! sel_idx lst bs \<in> set (addressable lst)"
    using assms(2) by (rule sel_idx_addressable)
  with assms(1) show "CHR '' '' \<notin> set (lst ! sel_idx lst bs)"
    by (simp add: marker_safe_def)
  have "distinct (take (2 ^ bit_length_of (length lst)) lst)"
    using assms(1) by (simp add: marker_safe_def addressable_def)
  then show "index_of lst (lst ! sel_idx lst bs) = Inr (sel_idx lst bs)"
    using sel_idx_small sel_idx_less [OF assms(2)] by (rule index_of_nth)
  from assms(1) tok assms(3,4) show "lst ! sel_idx lst bs @ [char_of (c + 97)] \<notin> set lst"
    by (rule marked_not_member)
qed

text \<open>In a model in which the marker is unambiguous, every run of the encoder is a run
  whose tokens the decoder can read back, and its end key is at most \<open>K\<close>.\<close>

lemma run_safe_ok:
  assumes "run_safe m eps K G" and "1 \<le> c" and "c \<le> K"
    and "ee_bitstream s \<noteq> []"
    and "list_all is_bit (ee_bitstream s)"
    and "ee_entrypoints s = eps"
    and "\<not> ee_exhausted s \<longrightarrow> (\<exists>g. ee_current_gram s = Some g \<and> g \<in> G)"
  shows "run_ok m rnd n i c s"
  using assms(4-)
proof (induction n arbitrary: s)
  case 0
  show ?case by simp
next
  case (Suc n)
  have closed: "closed_under m eps G" using assms(1) by (simp add: run_safe_def)
  show ?case
  proof (cases "ee_finished s")
    case True
    then show ?thesis by simp
  next
    case nf: False
    have ok: "step_ok m i c s"
    proof (cases "step_list m s")
      case (Inl e)
      then show ?thesis by (simp add: step_ok_def)
    next
      case (Inr lst)
      show ?thesis
      proof (cases "lst = [] \<or> (\<not> ee_exhausted s \<and> END \<in> set lst)")
        case True
        with Inr show ?thesis by (auto simp: step_ok_def)
      next
        case False
        then have ne: "lst \<noteq> []" by simp
        from Inr False have shape: "(ee_exhausted s \<and> lst = ee_entrypoints s \<and> True)
            \<or> (\<not> ee_exhausted s \<and> enc_get_transitions m (ee_current_gram s) = Inr lst
                \<and> END \<notin> set lst \<and> True)"
          by (auto simp: step_list_def split: if_splits)
        from assms(1) shape Suc.prems(3,4) have "marker_safe K lst" by (rule cand_safe)
        from marker_safe_step [OF this ne assms(2,3), of "ee_bitstream s"] Inr
        show ?thesis by (simp add: step_ok_def Let_def)
      qed
    qed
    have "case enc_step m rnd s of Inl e \<Rightarrow> True | Inr (v, s') \<Rightarrow> run_ok m rnd n i c s'"
    proof (cases "enc_step m rnd s")
      case (Inl e)
      then show ?thesis by simp
    next
      case (Inr p)
      obtain v s' where p: "p = (v, s')" by (cases p)
      with Inr have step: "enc_step m rnd s = Inr (v, s')" by simp
      have "run_ok m rnd n i c s'"
      proof (cases "ee_finished s'")
        case True
        then show ?thesis by (rule run_ok_finished)
      next
        case nf': False
        from nf Suc.prems(1,2) step show ?thesis
        proof (cases rule: enc_step_cases)
          case (chain_end lst)
          with Suc.prems have "ee_bitstream s' \<noteq> []" "list_all is_bit (ee_bitstream s')"
            "ee_entrypoints s' = eps"
            "\<not> ee_exhausted s' \<longrightarrow> (\<exists>g. ee_current_gram s' = Some g \<and> g \<in> G)"
            by simp_all
          then show ?thesis by (rule Suc.IH)
        next
          case (select lst g')
          from cand_closed [OF closed select(2) Suc.prems(3,4) select(1)]
          have g'G: "g' \<in> G" .
          from select(3) nf' have ne: "drop (bit_length_of (length lst)) (ee_bitstream s) \<noteq> []"
            by (auto simp: enc_emit_fields)
          with select(3) have s': "s' = s\<lparr>ee_exhausted := False,
                 ee_bitstream := drop (bit_length_of (length lst)) (ee_bitstream s),
                 ee_current_gram := Some g',
                 ee_output_tokens := ee_output_tokens s
                   @ [lst ! sel_idx lst (ee_bitstream s)]\<rparr>"
            by (simp add: enc_emit_def)
          with Suc.prems ne g'G have "ee_bitstream s' \<noteq> []"
            "list_all is_bit (ee_bitstream s')" "ee_entrypoints s' = eps"
            "\<not> ee_exhausted s' \<longrightarrow> (\<exists>g. ee_current_gram s' = Some g \<and> g \<in> G)"
            by (auto simp: list_all_iff dest: in_set_dropD)
          then show ?thesis by (rule Suc.IH)
        qed
      qed
      with step show ?thesis by simp
    qed
    with ok show ?thesis by simp
  qed
qed

lemma run_safe_key:
  assumes "run_safe m eps K G"
    and "enc_iter m rnd n s = Some (Inr sf)"
    and "\<not> ee_finished s"
    and "ee_bitstream s \<noteq> []"
    and "list_all is_bit (ee_bitstream s)"
    and "ee_entrypoints s = eps"
    and "\<not> ee_exhausted s \<longrightarrow> (\<exists>g. ee_current_gram s = Some g \<and> g \<in> G)"
  shows "1 \<le> ee_end_key sf \<and> ee_end_key sf \<le> K"
  using assms(2-)
proof (induction n arbitrary: s)
  case 0
  then show ?case by simp
next
  case (Suc n)
  have closed: "closed_under m eps G" using assms(1) by (simp add: run_safe_def)
  from Suc.prems(1,2) obtain v s' where step: "enc_step m rnd s = Inr (v, s')"
    and rest: "enc_iter m rnd n s' = Some (Inr sf)"
    by (auto split: sum.splits)
  from Suc.prems(2,3,4) step show ?case
  proof (cases rule: enc_step_cases)
    case (chain_end lst)
    with Suc.prems have "\<not> ee_finished s'" "ee_bitstream s' \<noteq> []"
      "list_all is_bit (ee_bitstream s')" "ee_entrypoints s' = eps"
      "\<not> ee_exhausted s' \<longrightarrow> (\<exists>g. ee_current_gram s' = Some g \<and> g \<in> G)"
      by simp_all
    from Suc.IH [OF rest this] show ?thesis .
  next
    case (select lst g')
    define L where "L = bit_length_of (length lst)"
    from cand_closed [OF closed select(2) Suc.prems(5,6) select(1)]
    have g'G: "g' \<in> G" .
    from assms(1) select(2) Suc.prems(5,6) have "marker_safe K lst" by (rule cand_safe)
    then have Lsmall: "L \<le> K" by (simp add: marker_safe_def L_def)
    show ?thesis
    proof (cases "drop L (ee_bitstream s) = []")
      case False
      with select(3) have s': "s' = s\<lparr>ee_exhausted := False,
                 ee_bitstream := drop L (ee_bitstream s),
                 ee_current_gram := Some g',
                 ee_output_tokens := ee_output_tokens s
                   @ [lst ! sel_idx lst (ee_bitstream s)]\<rparr>"
        by (simp add: enc_emit_def L_def)
      with Suc.prems False g'G have "\<not> ee_finished s'" "ee_bitstream s' \<noteq> []"
        "list_all is_bit (ee_bitstream s')" "ee_entrypoints s' = eps"
        "\<not> ee_exhausted s' \<longrightarrow> (\<exists>g. ee_current_gram s' = Some g \<and> g \<in> G)"
        by (auto simp: list_all_iff dest: in_set_dropD)
      from Suc.IH [OF rest this] show ?thesis .
    next
      case True
      with select(3) have fin: "ee_finished s'"
        and key: "ee_end_key s' = length (take L (ee_bitstream s))"
        by (simp_all add: enc_emit_def L_def)
      from fin rest have sf: "sf = s'" by (simp add: enc_iter_of_finished)
      from True Suc.prems(3) have "1 \<le> length (take L (ee_bitstream s))"
        by (cases "ee_bitstream s") (auto simp: Suc_leI)
      moreover have "length (take L (ee_bitstream s)) \<le> K"
        using Lsmall by simp
      ultimately show ?thesis by (simp add: sf key)
    qed
  qed
qed

lemma enc_step_total:
  assumes "closed_under m eps G" and "run_returns m G rk" and "2 \<le> length eps"
    and "enc_ready G eps s"
  shows "\<exists>v s'. enc_step m rnd s = Inr (v, s')
           \<and> (ee_finished s'
               \<or> (enc_ready G eps s'
                   \<and> (enc_measure rk s', enc_measure rk s) \<in> less_than <*lex*> less_than))"
proof -
  from assms(4) have nf: "\<not> ee_finished s" and bs: "ee_bitstream s \<noteq> []"
    and bits: "list_all is_bit (ee_bitstream s)" and len: "ee_bitstream_length s \<noteq> 0"
    and eps: "ee_entrypoints s = eps"
    by (simp_all add: enc_ready_def)
  have dropbits: "list_all is_bit (drop k (ee_bitstream s))" for k
    using bits by (auto simp: list_all_iff dest: in_set_dropD)
  show ?thesis
  proof (cases "ee_exhausted s")
    case True
    have ne: "eps \<noteq> []" using assms(3) by auto
    define L where "L = bit_length_of (length eps)"
    define tok where "tok = eps ! sel_idx eps (ee_bitstream s)"
    have L1: "1 \<le> L" unfolding L_def using assms(3) by (rule bit_length_of_pos)
    have "tok \<in> set (addressable eps)"
      unfolding tok_def using ne by (rule sel_idx_addressable)
    with assms(1) have gram: "entry_gram m tok \<in> G"
      by (simp add: closed_under_def)
    define s2 where "s2 = s\<lparr>ee_exhausted := False, ee_bitstream := drop L (ee_bitstream s),
        ee_current_gram := Some (entry_gram m tok),
        ee_output_tokens := ee_output_tokens s @ [tok]\<rparr>"
    have step: "enc_step m rnd s =
        Inr (Frac (int (ee_bitstream_length s) - int (length (drop L (ee_bitstream s))))
               (int (ee_bitstream_length s)), enc_emit rnd (take L (ee_bitstream s)) s2)"
      using True nf bs bits len eps ne
      by (auto simp: enc_step_def enc_choose_entrypoint_def consume_sel inject_end_key_def
          enc_emit_def Let_def s2_def L_def tok_def)
    have "ee_finished (enc_emit rnd (take L (ee_bitstream s)) s2)
        \<or> (enc_ready G eps (enc_emit rnd (take L (ee_bitstream s)) s2)
            \<and> (enc_measure rk (enc_emit rnd (take L (ee_bitstream s)) s2), enc_measure rk s)
                 \<in> less_than <*lex*> less_than)"
    proof (cases "drop L (ee_bitstream s) = []")
      case True
      then show ?thesis by (simp add: enc_emit_fields s2_def)
    next
      case False
      then have e: "enc_emit rnd (take L (ee_bitstream s)) s2 = s2"
        by (simp add: enc_emit_def s2_def)
      have "length (drop L (ee_bitstream s)) < length (ee_bitstream s)"
        using L1 bs by (cases "ee_bitstream s") auto
      with False nf len eps gram dropbits show ?thesis
        unfolding e by (simp add: enc_ready_def enc_measure_def s2_def)
    qed
    with step show ?thesis by blast
  next
    case False
    with assms(4) obtain g where g: "ee_current_gram s = Some g" and gG: "g \<in> G"
      by (auto simp: enc_ready_def split: option.splits)
    from assms(2) gG have ret: "case map_of (chain m) g of
          None \<Rightarrow> False
        | Some tm \<Rightarrow>
            tm \<noteq> []
            \<and> (END \<in> fst ` set tm \<or> length tm \<noteq> 1
                \<or> rk (tl (g @ [fst (hd tm)])) < rk g)"
      by (simp add: run_returns_def)
    then obtain tm where tm: "map_of (chain m) g = Some tm"
      by (cases "map_of (chain m) g") auto
    with ret have tmne: "tm \<noteq> []"
      and rank: "END \<in> fst ` set tm \<or> length tm \<noteq> 1
                \<or> rk (tl (g @ [fst (hd tm)])) < rk g"
      by simp_all
    define lst where "lst = map fst (sorted_desc tm)"
    have tr: "enc_get_transitions m (ee_current_gram s) = Inr lst"
      by (simp add: enc_get_transitions_def g tm lst_def)
    have setl: "set lst = fst ` set tm" and lenl: "length lst = length tm"
      by (simp_all add: lst_def sorted_desc_def)
    show ?thesis
    proof (cases "END \<in> set lst")
      case True
      have "enc_step m rnd s =
          Inr (Frac (int (ee_bitstream_length s) - int (length (ee_bitstream s)))
                 (int (ee_bitstream_length s)), s\<lparr>ee_exhausted := True\<rparr>)"
        using False nf len tr True
        by (simp add: enc_step_def enc_choose_next_token_def)
      moreover have "enc_ready G eps (s\<lparr>ee_exhausted := True\<rparr>)
          \<and> (enc_measure rk (s\<lparr>ee_exhausted := True\<rparr>), enc_measure rk s)
               \<in> less_than <*lex*> less_than"
        using False nf bs bits len eps g by (simp add: enc_ready_def enc_measure_def)
      ultimately show ?thesis by blast
    next
      case noend: False
      have ne: "lst \<noteq> []" using tmne lenl by auto
      define L where "L = bit_length_of (length lst)"
      define tok where "tok = lst ! sel_idx lst (ee_bitstream s)"
      have tok_in: "tok \<in> set (addressable lst)"
        unfolding tok_def using ne by (rule sel_idx_addressable)
      from assms(1) gG have "case map_of (chain m) g of
              None \<Rightarrow> True
            | Some tm \<Rightarrow>
                END \<in> fst ` set tm
                \<or> (\<forall>t \<in> set (addressable (map fst (sorted_desc tm))).
                      tl (g @ [t]) \<in> G)"
        by (simp add: closed_under_def)
      with tm noend setl have "\<forall>t \<in> set (addressable lst). tl (g @ [t]) \<in> G"
        by (simp add: lst_def)
      with tok_in have gram: "tl (g @ [tok]) \<in> G" by simp
      define s2 where "s2 = s\<lparr>ee_bitstream := drop L (ee_bitstream s),
          ee_current_gram := Some (tl (g @ [tok])),
          ee_output_tokens := ee_output_tokens s @ [tok]\<rparr>"
      have step: "enc_step m rnd s =
          Inr (Frac (int (ee_bitstream_length s) - int (length (drop L (ee_bitstream s))))
                 (int (ee_bitstream_length s)), enc_emit rnd (take L (ee_bitstream s)) s2)"
        using False nf bs bits len tr g noend ne
        by (auto simp: enc_step_def enc_choose_next_token_def consume_sel inject_end_key_def
            enc_emit_def Let_def s2_def L_def tok_def)
      have "ee_finished (enc_emit rnd (take L (ee_bitstream s)) s2)
          \<or> (enc_ready G eps (enc_emit rnd (take L (ee_bitstream s)) s2)
              \<and> (enc_measure rk (enc_emit rnd (take L (ee_bitstream s)) s2), enc_measure rk s)
                   \<in> less_than <*lex*> less_than)"
      proof (cases "drop L (ee_bitstream s) = []")
        case True
        then show ?thesis by (simp add: enc_emit_fields s2_def)
      next
        case nonempty: False
        then have e: "enc_emit rnd (take L (ee_bitstream s)) s2 = s2"
          by (simp add: enc_emit_def s2_def)
        have ready: "enc_ready G eps s2"
          using nonempty False nf len eps gram dropbits
          by (simp add: enc_ready_def s2_def)
        have "(enc_measure rk s2, enc_measure rk s) \<in> less_than <*lex*> less_than"
        proof (cases "L = 0")
          case L0: True
          then have "length lst = 1"
            using bit_length_of_zero_iff [of "length lst"] ne
            by (simp add: L_def Suc_leI)
          with lenl have one: "length tm = 1" by simp
          then obtain kv where kv: "tm = [kv]"
            by (cases tm) auto
          then have "lst = [fst kv]" by (simp add: lst_def sorted_desc_def)
          moreover have "sel_idx lst (ee_bitstream s) = 0"
            using L0 by (simp add: sel_idx_def L_def)
          ultimately have "tok = fst (hd tm)" by (simp add: tok_def kv)
          moreover from rank noend setl one
          have "rk (tl (g @ [fst (hd tm)])) < rk g" by simp
          ultimately show ?thesis
            using L0 False g by (simp add: enc_measure_def s2_def)
        next
          case Lpos: False
          then have "length (drop L (ee_bitstream s)) < length (ee_bitstream s)"
            using bs by (cases "ee_bitstream s") auto
          then show ?thesis
            by (simp add: enc_measure_def s2_def)
        qed
        with ready show ?thesis unfolding e by simp
      qed
      with step show ?thesis by blast
    qed
  qed
qed

lemma enc_iter_returns:
  assumes "closed_under m eps G" and "run_returns m G rk" and "2 \<le> length eps"
    and "enc_ready G eps s"
  shows "\<exists>n sf. enc_iter m rnd n s = Some (Inr sf)"
proof -
  have wf: "wf (inv_image (less_than <*lex*> less_than) (enc_measure rk))"
    by (intro wf_inv_image wf_lex_prod wf_less_than)
  from wf assms(4) show ?thesis
  proof (induction s rule: wf_induct_rule)
    case (less s)
    from enc_step_total [OF assms(1,2,3) less.prems, of rnd] obtain v s'
      where step: "enc_step m rnd s = Inr (v, s')"
        and after: "ee_finished s'
          \<or> (enc_ready G eps s'
              \<and> (enc_measure rk s', enc_measure rk s) \<in> less_than <*lex*> less_than)"
      by blast
    have nf: "\<not> ee_finished s" using less.prems by (simp add: enc_ready_def)
    from after show ?case
    proof
      assume "ee_finished s'"
      with nf step have "enc_iter m rnd (Suc 0) s = Some (Inr s')" by simp
      then show ?thesis by blast
    next
      assume a: "enc_ready G eps s'
          \<and> (enc_measure rk s', enc_measure rk s) \<in> less_than <*lex*> less_than"
      then have "(s', s) \<in> inv_image (less_than <*lex*> less_than) (enc_measure rk)"
        by simp
      from less.IH [OF this] a obtain n sf where "enc_iter m rnd n s' = Some (Inr sf)"
        by blast
      with nf step have "enc_iter m rnd (Suc n) s = Some (Inr sf)" by simp
      then show ?thesis by blast
    qed
  qed
qed

lemma enc_iter_generate:
  assumes "enc_iter m rnd n s = Some r"
  shows "enc_generate m rnd s = Some (map_sum id enc_output r)"
  using assms
proof (induction n arbitrary: s)
  case 0
  then show ?case
    by (subst enc_generate.simps) (auto split: if_splits)
next
  case (Suc n)
  show ?case
  proof (cases "ee_finished s")
    case True
    with Suc.prems show ?thesis
      by (subst enc_generate.simps) auto
  next
    case False
    show ?thesis
    proof (cases "enc_step m rnd s")
      case (Inl e)
      with False Suc.prems show ?thesis
        by (subst enc_generate.simps) auto
    next
      case (Inr p)
      obtain v s' where p: "p = (v, s')" by (cases p)
      with False Inr Suc.prems have "enc_iter m rnd n s' = Some r" by simp
      from Suc.IH [OF this] False Inr p show ?thesis
        by (subst enc_generate.simps) (simp add: id_def)
    qed
  qed
qed

lemma encode_returns:
  assumes "get_entrypoints m = Inr eps" and "2 \<le> length eps"
    and "closed_under m eps G" and "run_returns m G rk"
    and "bits \<noteq> []" and "list_all is_bit bits"
  shows "\<exists>text. encode m rnd bits = Some (Inr text)"
proof -
  define e0 where "e0 = \<lparr>ee_bitstream = bits, ee_bitstream_length = length bits,
               ee_entrypoints = eps, ee_current_gram = None, ee_output_tokens = [],
               ee_exhausted = True, ee_finished = False, ee_end_key = 0\<rparr>"
  have init: "enc_init m bits = Inr e0"
    using assms(1) by (simp add: enc_init_def e0_def)
  have "enc_ready G eps e0"
    using assms(5,6) by (simp add: enc_ready_def e0_def)
  from enc_iter_returns [OF assms(3,4,2) this, of rnd] obtain n sf
    where "enc_iter m rnd n e0 = Some (Inr sf)" by blast
  from enc_iter_generate [OF this] init show ?thesis
    by (simp add: encode_def)
qed

lemma is_bit_digit: "is_bit (if b then CHR ''1'' else CHR ''0'')"
  by (simp add: is_bit_def)

lemma bin_digits_bits: "list_all is_bit (bin_digits v)"
proof (induction v rule: bin_digits.induct)
  case (1 n)
  show ?case
  proof (cases "n < 2")
    case True
    then show ?thesis by (subst bin_digits.simps) (simp add: is_bit_digit)
  next
    case False
    with 1 show ?thesis by (subst bin_digits.simps) (simp add: is_bit_digit)
  qed
qed

lemma byte_bits_bits: "byte_bits b \<noteq> [] \<and> list_all is_bit (byte_bits b)"
proof -
  have "bin_digits (b mod 256) \<noteq> []"
    by (subst bin_digits.simps) simp
  moreover have "list_all is_bit (replicate k (CHR ''0''))" for k
    by (simp add: list_all_iff is_bit_def)
  ultimately show ?thesis
    by (simp add: byte_bits_def zfill_def bin_digits_bits)
qed

lemma bitstream_of_bytes_bits:
  assumes "bs \<noteq> []"
  shows "bitstream_of_bytes bs \<noteq> [] \<and> list_all is_bit (bitstream_of_bytes bs)"
  using assms byte_bits_bits
  by (cases bs) (auto simp: bitstream_of_bytes_def list_all_iff)

lemmas run_defs = enc_step_def enc_choose_entrypoint_def enc_choose_next_token_def
  enc_get_transitions_def consume_from_list_def inject_end_key_def bit_length_of_def
  ceil_log2.simps int_base2_def is_bit_def bit_val_def entry_gram_def sorted_desc_def Let_def
  char_of_def bit_0

lemmas eval_defs = encode_def enc_init_def get_entrypoints_def enc_step_def
  enc_choose_entrypoint_def enc_choose_next_token_def enc_get_transitions_def
  consume_from_list_def inject_end_key_def bit_length_of_def ceil_log2.simps int_base2_def
  is_bit_def bit_val_def entry_gram_def sorted_desc_def enc_output_def Let_def
  bitstream_of_bytes_def byte_bits_def bin_digits.simps zfill_def
  decode_def dec_init_def dec_step_def dec_choose_entrypoint_def dec_choose_next_token_def
  dec_get_transitions_def dec_bit_length_of_def

lemma round_trip_run:
  assumes "get_entrypoints m = Inr eps" and "2 \<le> length eps"
    and "bits \<noteq> []" and "list_all is_bit bits"
    and "enc_init m bits = Inr e0"
    and "enc_iter m rnd n e0 = Some (Inr sf)" and "ee_end_key sf < 159"
    and "run_ok m rnd n (rnd mod length (ee_output_tokens sf)) (ee_end_key sf) e0"
  shows "decode m (enc_output sf) = Inr bits"
proof -
  have e0: "e0 = \<lparr>ee_bitstream = bits, ee_bitstream_length = length bits,
               ee_entrypoints = eps, ee_current_gram = None, ee_output_tokens = [],
               ee_exhausted = True, ee_finished = False, ee_end_key = 0\<rparr>"
    using assms(1,5) by (simp add: enc_init_def)
  have e0props: "\<not> ee_finished e0" "ee_bitstream e0 \<noteq> []" "list_all is_bit (ee_bitstream e0)"
    "ee_entrypoints e0 = eps" "\<forall>t \<in> set (ee_output_tokens e0). CHR '' '' \<notin> set t"
    using assms(3,4) by (simp_all add: e0)
  from enc_run_facts [OF assms(7,6) e0props(1-3,5) assms(8)]
  have ne: "ee_output_tokens sf \<noteq> []"
    and sp: "\<forall>t \<in> set (ee_output_tokens sf). CHR '' '' \<notin> set t"
    by auto
  have split: "split_sp (enc_output sf) = ee_output_tokens sf"
    unfolding enc_output_def using ne sp by (rule split_join)
  define d0 where "d0 = \<lparr>ed_stega_text = ee_output_tokens sf, ed_entrypoints = eps,
               ed_output = [], ed_endkey = 0, ed_current_gram = None, ed_exhausted = True,
               ed_finished = False, ed_index = 0\<rparr>"
  have dinit: "dec_init m (enc_output sf) = Inr d0"
    using assms(1) split by (simp add: dec_init_def d0_def)
  have "sim (ee_output_tokens sf) (rnd mod length (ee_output_tokens sf)) (ee_end_key sf) e0 d0"
    by (simp add: sim_def e0 d0_def)
  from round_trip_sim [OF assms(7,2,6) e0props this assms(8)]
  have "dec_solve m d0 = Inr bits"
    by (simp add: d0_def e0)
  with dinit show ?thesis
    by (simp add: decode_def)
qed

lemma run_safe_run:
  assumes "get_entrypoints m = Inr eps"
    and "bits \<noteq> []" and "list_all is_bit bits"
    and "enc_init m bits = Inr e0"
    and "K < 159" and "run_safe m eps K G"
    and "enc_iter m rnd n e0 = Some (Inr sf)"
  shows "ee_end_key sf < 159
       \<and> run_ok m rnd n (rnd mod length (ee_output_tokens sf)) (ee_end_key sf) e0"
proof -
  have e0: "e0 = \<lparr>ee_bitstream = bits, ee_bitstream_length = length bits,
               ee_entrypoints = eps, ee_current_gram = None, ee_output_tokens = [],
               ee_exhausted = True, ee_finished = False, ee_end_key = 0\<rparr>"
    using assms(1,4) by (simp add: enc_init_def)
  have e0props: "\<not> ee_finished e0" "ee_bitstream e0 \<noteq> []" "list_all is_bit (ee_bitstream e0)"
    "ee_entrypoints e0 = eps"
    "\<not> ee_exhausted e0 \<longrightarrow> (\<exists>g. ee_current_gram e0 = Some g \<and> g \<in> G)"
    using assms(2,3) by (simp_all add: e0)
  from run_safe_key [OF assms(6,7) e0props]
  have key: "1 \<le> ee_end_key sf" "ee_end_key sf \<le> K"
    by simp_all
  from run_safe_ok [OF assms(6) key e0props(2-5)] key(2) assms(5) show ?thesis
    by simp
qed

text \<open>The two classes on a single entry point. The encoder's selection of the entry point
  consumes no bit (the code length of a list of one item is 0). The decoder writes the
  digit 0 for that entry point all the same, when it is not the last token: line 269 pads
  \<^verbatim>\<open>bin(0)[2:]\<close> to the width 0, which leaves the string \<^verbatim>\<open>0\<close>, without the test
  \<^verbatim>\<open>bit_length != 0\<close> that line 304 makes for the tokens inside a chain. So with a single
  entry point the decoder returns a bit for every chain of the text that the payload
  does not have.\<close>

lemma enc_single_entrypoint:
  assumes "ee_exhausted s" and "\<not> ee_finished s" and "ee_entrypoints s = [t]"
    and "ee_bitstream s \<noteq> []" and "list_all is_bit (ee_bitstream s)"
    and "ee_bitstream_length s \<noteq> 0"
  shows "enc_step m rnd s =
     Inr (Frac (int (ee_bitstream_length s) - int (length (ee_bitstream s)))
            (int (ee_bitstream_length s)),
          s\<lparr>ee_exhausted := False, ee_current_gram := Some (entry_gram m t),
            ee_output_tokens := ee_output_tokens s @ [t]\<rparr>)"
proof -
  have "bit_length_of (length [t]) = 0"
    by (simp add: bit_length_of_def ceil_log2.simps)
  then have "consume_from_list [t] (ee_bitstream s) = Inr ((t, [], 0, 0), ee_bitstream s)"
    by (simp add: consume_from_list_def)
  with assms show ?thesis
    by (cases s) (simp add: enc_step_def enc_choose_entrypoint_def)
qed

lemma dec_single_entrypoint:
  assumes "ed_exhausted d" and "ed_entrypoints d = [t]"
    and "Suc (ed_index d) < length (ed_stega_text d)"
    and "ed_stega_text d ! ed_index d = t"
  shows "dec_step m d =
     Inr (Frac (int (ed_index d)) (int (length (ed_stega_text d))),
          d\<lparr>ed_exhausted := False, ed_current_gram := Some (entry_gram m t),
            ed_output := ed_output d @ ''0''\<rparr>)"
proof -
  have "bit_length_of (length [t]) = 0"
    by (simp add: bit_length_of_def ceil_log2.simps)
  moreover have "zfill (bin_digits 0) 0 = ''0''"
    by (simp add: zfill_def bin_digits.simps)
  moreover have "int (ed_index d) \<noteq> int (length (ed_stega_text d)) - 1"
    and "ed_stega_text d \<noteq> []" and "ed_index d < length (ed_stega_text d)"
    using assms(3) by auto
  ultimately show ?thesis
    using assms by (cases d) (simp add: dec_step_def dec_choose_entrypoint_def Let_def)
qed

text \<open>Claim C1, as amended. Let the entry points of the model be at least two, and take
  a bit sequence that is not empty (such as the bits of a byte payload that is not empty,
  by \<open>bitstream_of_bytes_bits\<close>) and any choice of the random source.

  \<^item> When \<^verbatim>\<open>generate\<close> returns a text, in a run in which no selected token has a blank,
    every selected token is found by \<^verbatim>\<open>index\<close> at the selected position of its list (as
    the keys of a dictionary are), and the token that receives the marker of the end key
    is, with the marker, no token of the list that it was selected from, then \<^verbatim>\<open>solve\<close>
    on that text returns the bit sequence. (The end key is below 159, so that the marker
    is a character of the model; a Python list has fewer than \<open>2^63\<close> items and so an end
    key below 63.) Every run that returns is a run of some number of steps.

  \<^item> Every run is such a run in a model whose candidate lists keep the markers apart
    (\<open>run_safe\<close>): for the tokens that a selection can return, and the markers
    \<^verbatim>\<open>chr(97 + c)\<close> of the end keys \<open>1 \<le> c \<le> K\<close>, with \<open>K\<close> a bound of the code lengths.

  \<^item> \<^verbatim>\<open>generate\<close> does return a text when every context of a closed set \<open>G\<close> is a key
    with transitions and the contexts with one transition other than END lead to a
    context of lower rank. In a model with both properties \<^verbatim>\<open>generate\<close> returns a text
    and \<^verbatim>\<open>solve\<close> on that text returns the bit sequence.

  The single entry point is left out: see \<open>dec_single_entrypoint\<close>.\<close>

theorem enhanced_round_trip:
  assumes "get_entrypoints m = Inr eps" and "2 \<le> length eps"
    and "bits \<noteq> []" and "list_all is_bit bits"
    and "enc_init m bits = Inr e0"
  shows "(enc_iter m rnd n e0 = Some (Inr sf) \<and> ee_end_key sf < 159
            \<and> run_ok m rnd n (rnd mod length (ee_output_tokens sf)) (ee_end_key sf) e0 \<longrightarrow>
            encode m rnd bits = Some (Inr (enc_output sf))
            \<and> decode m (enc_output sf) = Inr bits)
       \<and> (encode m rnd bits = Some (Inr text) \<longrightarrow>
            (\<exists>k sk. enc_iter m rnd k e0 = Some (Inr sk) \<and> text = enc_output sk))
       \<and> (K < 159 \<and> run_safe m eps K G \<and> enc_iter m rnd n e0 = Some (Inr sf) \<longrightarrow>
            ee_end_key sf < 159
            \<and> run_ok m rnd n (rnd mod length (ee_output_tokens sf)) (ee_end_key sf) e0)
       \<and> (closed_under m eps G \<and> run_returns m G rk \<longrightarrow>
            (\<exists>t. encode m rnd bits = Some (Inr t)))
       \<and> (K < 159 \<and> run_safe m eps K G \<and> run_returns m G rk \<longrightarrow>
            (\<exists>t. encode m rnd bits = Some (Inr t) \<and> decode m t = Inr bits))"
proof -
  have gen: "encode m rnd bits = Some (Inr (enc_output sk))"
    if "enc_iter m rnd k e0 = Some (Inr sk)" for k sk
    using enc_iter_generate [OF that] assms(5) by (simp add: encode_def)
  have run: "\<exists>k sk. enc_iter m rnd k e0 = Some (Inr sk) \<and> t = enc_output sk"
    if "encode m rnd bits = Some (Inr t)" for t
  proof -
    from that assms(5) have "enc_generate m rnd e0 = Some (Inr t)"
      by (simp add: encode_def)
    then show ?thesis by (rule enc_generate_returns)
  qed
  have exact: "decode m (enc_output sk) = Inr bits"
    if "enc_iter m rnd k e0 = Some (Inr sk)" and "ee_end_key sk < 159"
      and "run_ok m rnd k (rnd mod length (ee_output_tokens sk)) (ee_end_key sk) e0" for k sk
    using assms that by (rule round_trip_run)
  have safe: "ee_end_key sk < 159
       \<and> run_ok m rnd k (rnd mod length (ee_output_tokens sk)) (ee_end_key sk) e0"
    if "K < 159" and "run_safe m eps K G" and "enc_iter m rnd k e0 = Some (Inr sk)" for k sk
    using assms(1,3,4,5) that by (rule run_safe_run)
  have returns: "\<exists>t. encode m rnd bits = Some (Inr t)"
    if "closed_under m eps G" and "run_returns m G rk"
    using assms(1,2) that assms(3,4) by (rule encode_returns)
  have both: "\<exists>t. encode m rnd bits = Some (Inr t) \<and> decode m t = Inr bits"
    if "K < 159" and "run_safe m eps K G" and "run_returns m G rk"
  proof -
    from that(2) have "closed_under m eps G" by (simp add: run_safe_def)
    from returns [OF this that(3)] obtain t where t: "encode m rnd bits = Some (Inr t)" ..
    from run [OF this] obtain k sk where k: "enc_iter m rnd k e0 = Some (Inr sk)"
      and out: "t = enc_output sk"
      by blast
    from safe [OF that(1,2) k] exact [OF k] have "decode m t = Inr bits"
      by (simp add: out)
    with t show ?thesis by blast
  qed
  from gen run exact safe returns both show ?thesis by blast
qed

theorem enhanced_round_trip_witness:
  "enc_init sat_model (bitstream_of_bytes [69]) = Inr sat_start
   \<and> enc_iter sat_model 5 11 sat_start = Some (Inr sat_final)
   \<and> run_ok sat_model 5 11 (5 mod length (ee_output_tokens sat_final))
        (ee_end_key sat_final) sat_start
   \<and> encode sat_model 5 (bitstream_of_bytes [69])
       = Some (Inr ''the cat sat. the cat satb the cat sat the'')
   \<and> decode sat_model ''the cat sat. the cat satb the cat sat the''
       = Inr (bitstream_of_bytes [69])
   \<and> run_safe sat_model [''the'', ''a''] 2 sat_contexts
   \<and> run_returns sat_model sat_contexts sat_rank
   \<and> (\<exists>t. encode sat_model 7 (bitstream_of_bytes [69]) = Some (Inr t)
           \<and> decode sat_model t = Inr (bitstream_of_bytes [69]))
   \<and> enc_init ab_model (bitstream_of_bytes [128]) = Inr ab_start
   \<and> enc_iter ab_model 0 8 ab_start = Some (Inr ab_final)
   \<and> run_ok ab_model 0 8 (0 mod length (ee_output_tokens ab_final))
        (ee_end_key ab_final) ab_start
   \<and> encode ab_model 0 (bitstream_of_bytes [128]) = Some (Inr ''abb a a a a a a a'')
   \<and> decode ab_model ''abb a a a a a a a'' = Inr (bitstream_of_bytes [128])"
proof -
  have bits: "bitstream_of_bytes [69] = ''01000101''"
    by (simp add: bitstream_of_bytes_def byte_bits_def bin_digits.simps zfill_def)
  have eps: "get_entrypoints sat_model = Inr [''the'', ''a'']"
    by (simp add: get_entrypoints_def sat_model_def string_defs)
  have two: "2 \<le> length [''the'', ''a'']" and ne: "''01000101'' \<noteq> []"
    and bitsok: "list_all is_bit ''01000101''"
    by (simp_all add: is_bit_def)
  have init: "enc_init sat_model ''01000101'' = Inr sat_start"
    by (simp add: enc_init_def eps sat_start_def)
  have marks: "{Suc 0..<3} = {Suc 0, 2::nat}"
    by auto
  have safe: "run_safe sat_model [''the'', ''a''] 2 sat_contexts"
    by (simp add: run_safe_def closed_under_def marker_safe_def addressable_def marks
        bit_length_of_def ceil_log2.simps sorted_desc_def entry_gram_def sat_model_def
        sat_contexts_def string_defs char_of_def bit_0)
  have returns: "run_returns sat_model sat_contexts sat_rank"
    by (simp add: run_returns_def sat_model_def sat_contexts_def sat_rank_def string_defs)
  have steps: "(11::nat) = Suc (Suc (Suc (Suc (Suc (Suc (Suc (Suc (Suc (Suc (Suc 0))))))))))"
    by simp
  have run: "enc_iter sat_model 5 11 sat_start = Some (Inr sat_final)"
    unfolding steps
    by (simp add: run_defs sat_start_def sat_final_def sat_model_def string_defs)
  have ok: "run_ok sat_model 5 11 (5 mod length (ee_output_tokens sat_final))
        (ee_end_key sat_final) sat_start"
    unfolding steps
    by (simp add: run_defs step_ok_def step_list_def sel_idx_def bits_val_def
        sat_start_def sat_final_def sat_model_def string_defs)
  have out: "enc_output sat_final = ''the cat sat. the cat satb the cat sat the''"
    by (simp add: enc_output_def sat_final_def)
  have key: "ee_end_key sat_final < 159"
    by (simp add: sat_final_def)
  note rt = enhanced_round_trip [OF eps two ne bitsok init,
      where rnd = 5 and n = 11 and sf = sat_final and K = 2 and G = sat_contexts
        and rk = sat_rank]
  from rt run ok key have "encode sat_model 5 ''01000101'' = Some (Inr (enc_output sat_final))
     \<and> decode sat_model (enc_output sat_final) = Inr ''01000101''"
    by simp
  then have first: "encode sat_model 5 ''01000101''
       = Some (Inr ''the cat sat. the cat satb the cat sat the'')
     \<and> decode sat_model ''the cat sat. the cat satb the cat sat the'' = Inr ''01000101''"
    by (simp only: out)
  from enhanced_round_trip [OF eps two ne bitsok init,
      where rnd = 7 and K = 2 and G = sat_contexts and rk = sat_rank] safe returns
  have second: "\<exists>t. encode sat_model 7 ''01000101'' = Some (Inr t)
           \<and> decode sat_model t = Inr ''01000101''"
    by simp
  have "replicate 7 (CHR ''0'') = ''0000000''"
    by (simp add: numeral_eq_Suc)
  then have bits': "bitstream_of_bytes [128] = ''10000000''"
    by (simp add: bitstream_of_bytes_def byte_bits_def bin_digits.simps zfill_def)
  have eps': "get_entrypoints ab_model = Inr [''a'', ''ab'']"
    by (simp add: get_entrypoints_def ab_model_def string_defs)
  have two': "2 \<le> length [''a'', ''ab'']" and ne': "''10000000'' \<noteq> []"
    and bitsok': "list_all is_bit ''10000000''"
    by (simp_all add: is_bit_def)
  have init': "enc_init ab_model ''10000000'' = Inr ab_start"
    by (simp add: enc_init_def eps' ab_start_def)
  have steps': "(8::nat) = Suc (Suc (Suc (Suc (Suc (Suc (Suc (Suc 0)))))))"
    by simp
  have run': "enc_iter ab_model 0 8 ab_start = Some (Inr ab_final)"
    unfolding steps'
    by (simp add: run_defs ab_start_def ab_final_def ab_model_def string_defs)
  have ok': "run_ok ab_model 0 8 (0 mod length (ee_output_tokens ab_final))
        (ee_end_key ab_final) ab_start"
    unfolding steps'
    by (simp add: run_defs step_ok_def step_list_def sel_idx_def bits_val_def
        ab_start_def ab_final_def ab_model_def string_defs)
  have out': "enc_output ab_final = ''abb a a a a a a a''"
    by (simp add: enc_output_def ab_final_def)
  have key': "ee_end_key ab_final < 159"
    by (simp add: ab_final_def)
  from enhanced_round_trip [OF eps' two' ne' bitsok' init',
      where rnd = 0 and n = 8 and sf = ab_final] run' ok' key'
  have "encode ab_model 0 ''10000000'' = Some (Inr (enc_output ab_final))
     \<and> decode ab_model (enc_output ab_final) = Inr ''10000000''"
    by simp
  then have third: "encode ab_model 0 ''10000000'' = Some (Inr ''abb a a a a a a a'')
     \<and> decode ab_model ''abb a a a a a a a'' = Inr ''10000000''"
    by (simp only: out')
  from first second third show ?thesis
    using bits init run ok safe returns bits' init' run' ok' by simp
qed

text \<open>The claim C1 as stated fails in four ways. Where the marked token is itself a
  candidate: for the byte 128 and the random number 1 the marker b is on the second
  token, a, which makes the candidate ab, and the decoder returns seven bits, the second
  of them 1 (with the random number 0 the marker is on the first token, ab, and the
  decoder returns the bits of the byte, as the witness above shows). With a single entry
  point: the decoder returns nine bits for the byte 0. With a token that holds a blank:
  the decoder splits it and raises ValueError. On the empty payload: the encoder raises
  ValueError.\<close>

theorem round_trip_marker_counterexample:
  "bitstream_of_bytes [128] = ''10000000''
   \<and> encode ab_model 1 (bitstream_of_bytes [128]) = Some (Inr ''ab ab a a a a a a'')
   \<and> decode ab_model ''ab ab a a a a a a'' = Inr ''1100000''
   \<and> bitstream_of_bytes [0] = ''00000000''
   \<and> encode solo_model 0 (bitstream_of_bytes [0]) = Some (Inr ''sb s s s s s s s s'')
   \<and> decode solo_model ''sb s s s s s s s s'' = Inr ''000000000''
   \<and> encode blank_model 0 (bitstream_of_bytes [0])
       = Some (Inr ''a bb a b a b a b a b a b a b a b'')
   \<and> decode blank_model ''a bb a b a b a b a b a b a b a b'' = Inl ValueError
   \<and> encode ab_model 0 (bitstream_of_bytes []) = Some (Inl ValueError)"
proof -
  have seven: "replicate 7 (CHR ''0'') = ''0000000''"
    by (simp add: numeral_eq_Suc)
  then have bits: "bitstream_of_bytes [0] = ''00000000''"
    by (simp add: bitstream_of_bytes_def byte_bits_def bin_digits.simps zfill_def)
  from seven have bits': "bitstream_of_bytes [128] = ''10000000''"
    by (simp add: bitstream_of_bytes_def byte_bits_def bin_digits.simps zfill_def)
  have enc: "encode ab_model 1 ''10000000'' = Some (Inr ''ab ab a a a a a a'')"
    by (simp add: enc_generate.simps eval_defs ab_model_def string_defs char_of_def bit_0)
  have dec: "decode ab_model ''ab ab a a a a a a'' = Inr ''1100000''"
    by (simp add: dec_solve.simps eval_defs ab_model_def string_defs)
  have enc1: "encode solo_model 0 ''00000000'' = Some (Inr ''sb s s s s s s s s'')"
    by (simp add: enc_generate.simps eval_defs solo_model_def string_defs char_of_def bit_0)
  have dec1: "decode solo_model ''sb s s s s s s s s'' = Inr ''000000000''"
    by (simp add: dec_solve.simps eval_defs solo_model_def string_defs)
  have enc2: "encode blank_model 0 ''00000000''
      = Some (Inr ''a bb a b a b a b a b a b a b a b'')"
    by (simp add: enc_generate.simps eval_defs blank_model_def string_defs char_of_def bit_0)
  have dec2: "decode blank_model ''a bb a b a b a b a b a b a b a b'' = Inl ValueError"
    by (simp add: dec_solve.simps eval_defs blank_model_def string_defs)
  have enc3: "encode ab_model 0 [] = Some (Inl ValueError)"
    by (simp add: enc_generate.simps eval_defs ab_model_def string_defs)
  have empty: "bitstream_of_bytes [] = []"
    by (simp add: bitstream_of_bytes_def)
  from bits bits' enc dec enc1 dec1 enc2 dec2 enc3 empty show ?thesis by simp
qed

end
